theory Spec2Isabelle
  imports Complex_Main "HOL-Library.Word"
begin

unbundle bit_operations_syntax

section \<open>Python values, errors and containers\<close>

text \<open>
  The module \<open>blueskysight/utils.py\<close> is dynamically typed Python. Its values are
  embedded as the datatype \<open>pyval\<close>, its exceptions as values of \<open>error\<close>, and every
  function that can raise returns \<open>error + 'a\<close> (\<open>Inl\<close> the exception).

  A Python \<open>int\<close> is an \<open>int\<close>, \<open>bytes\<close> is a list of 8-bit words, \<open>str\<close> is a list
  of Unicode code points (so that \<open>len\<close> counts code points), a \<open>float\<close> is its real
  value or one of the IEEE specials, and a \<open>dict\<close> is an association list in
  insertion order.
\<close>

type_synonym byte = "8 word"
type_synonym pystr = "nat list"

text \<open>A \<open>str\<close> literal of the source, written with an ASCII string.\<close>

definition str_lit :: "string \<Rightarrow> pystr" where
  "str_lit cs = map of_char cs"

datatype pyfloat = Finite real | Infinity bool | NaN

datatype pyval =
    PInt int
  | PBool bool
  | PNone
  | PFloat pyfloat
  | PBytes "byte list"
  | PStr pystr
  | PList "pyval list"
  | PDict "(pyval \<times> pyval) list"

text \<open>
  The \<open>assert\<close> statements of the module raise \<open>AssertionError\<close> without a message; the
  embedding tags each with the statement it comes from (source line in brackets).
\<close>

datatype assert_site =
    TagNotBytes        \<comment> \<open>[145] \<open>assert type(cid_bytes) is bytes\<close>\<close>
  | TagLength          \<comment> \<open>[146] \<open>assert len(cid_bytes) == 37\<close>\<close>
  | TagPrefix          \<comment> \<open>[147] \<open>assert cid_bytes.startswith(...) or ...\<close>\<close>
  | HeaderFraming      \<comment> \<open>[157] \<open>assert stream.tell() - header_start == header_len\<close>\<close>
  | HeaderVersion      \<comment> \<open>[158] \<open>assert car_header.get("version") == 1\<close>\<close>
  | HeaderRoots        \<comment> \<open>[159] \<open>assert len(car_header.get("roots", [])) == 1\<close>\<close>
  | BlockPrefix        \<comment> \<open>[170] \<open>assert cid_raw.startswith(b"\x01q\x12 ")\<close>\<close>
  | BlockDigest        \<comment> \<open>[174] \<open>assert cid_raw.endswith(content_hash)\<close>\<close>
  | BlockTrailing      \<comment> \<open>[177] \<open>assert not block_data_stream.read()\<close>\<close>
  | BlockFraming       \<comment> \<open>[178] \<open>assert stream.tell() - block_start == block_len\<close>\<close>
  | EntryPrefixLength  \<comment> \<open>[190] \<open>assert entry["p"] <= len(prev_key)\<close>\<close>

datatype error =
    IndexError
  | KeyError
  | TypeError
  | AttributeError
  | EOFError
  | OverflowError
  | ValueError string
  | UnicodeDecodeError
  | AssertionError assert_site
  | PyException string

subsection \<open>Insertion-ordered dictionaries\<close>

text \<open>
  \<open>d[k] = v\<close>: an existing key keeps its position (and the key object already stored)
  and gets the new value; a new key is appended.
\<close>

fun dict_set :: "'k \<Rightarrow> 'v \<Rightarrow> ('k \<times> 'v) list \<Rightarrow> ('k \<times> 'v) list" where
  "dict_set k v [] = [(k, v)]"
| "dict_set k v ((k', v') # d) =
     (if k' = k then (k', v) # d else (k', v') # dict_set k v d)"


text \<open>\<open>d.get(k)\<close> of a decoded map with a \<open>str\<close> key: \<open>None\<close> when the key is missing.\<close>

definition dict_get :: "(pyval \<times> pyval) list \<Rightarrow> string \<Rightarrow> pyval" where
  "dict_get d k = (case map_of d (PStr (str_lit k)) of None \<Rightarrow> PNone | Some v \<Rightarrow> v)"

text \<open>\<open>d[k]\<close> with a \<open>str\<close> key: \<open>KeyError\<close> when the key is missing.\<close>

definition dict_item :: "(pyval \<times> pyval) list \<Rightarrow> string \<Rightarrow> error + pyval" where
  "dict_item d k = (case map_of d (PStr (str_lit k)) of None \<Rightarrow> Inl KeyError | Some v \<Rightarrow> Inr v)"

subsection \<open>\<open>remove_case_insensitive_duplicates\<close>\<close>

text \<open>
  \<open>list({item.lower(): item for item in input_list}.values())\<close>. The built-in
  \<open>str.lower\<close> is a parameter: nothing below depends on which function it is.
\<close>

definition remove_case_insensitive_duplicates :: "('a \<Rightarrow> 'k) \<Rightarrow> 'a list \<Rightarrow> 'a list" where
  "remove_case_insensitive_duplicates lower input_list =
     map snd (foldl (\<lambda>d item. dict_set (lower item) item d) [] input_list)"

section \<open>Byte streams\<close>

text \<open>
  The stream is read front to back and never rewound, so an \<open>io.BytesIO\<close> is the list
  of bytes not yet read together with the position \<open>tell()\<close> reports.
\<close>

record stream =
  unread :: "byte list"
  offset :: nat

definition BytesIO :: "byte list \<Rightarrow> stream" where
  "BytesIO bs = \<lparr>unread = bs, offset = 0\<rparr>"

text \<open>
  What \<open>stream.read(n)\<close> returns once the count is accepted: at most \<open>n\<close> bytes, fewer
  when the stream ends first, and everything that is left when \<open>n\<close> is negative.
\<close>

definition read_bytes :: "int \<Rightarrow> stream \<Rightarrow> byte list \<times> stream" where
  "read_bytes n s =
     (let out = (if n < 0 then unread s else take (nat n) (unread s))
      in (out, \<lparr>unread = drop (length out) (unread s), offset = offset s + length out\<rparr>))"

text \<open>
  \<open>stream.read(n)\<close>: the count is first converted to the C type \<open>ssize_t\<close> (64 bits on
  the usual builds of CPython), which raises \<open>OverflowError\<close> outside its range.
\<close>

definition stream_read :: "int \<Rightarrow> stream \<Rightarrow> error + (byte list \<times> stream)" where
  "stream_read n s =
     (if n < - (2 ^ 63) \<or> 2 ^ 63 \<le> n then Inl OverflowError else Inr (read_bytes n s))"

lemma stream_read_in_range:
  "- (2 ^ 63) \<le> n \<Longrightarrow> n < 2 ^ 63 \<Longrightarrow> stream_read n s = Inr (read_bytes n s)"
  by (simp add: stream_read_def)

text \<open>\<open>stream.read(1)[0]\<close>: indexing the empty result raises \<open>IndexError\<close>.\<close>

definition read_byte :: "stream \<Rightarrow> error + (int \<times> stream)" where
  "read_byte s =
     (case stream_read 1 s of
        Inl e \<Rightarrow> Inl e
      | Inr (bs, s') \<Rightarrow> (case bs of [] \<Rightarrow> Inl IndexError | b # _ \<Rightarrow> Inr (uint b, s')))"

lemma read_byte_Nil: "unread s = [] \<Longrightarrow> read_byte s = Inl IndexError"
  by (simp add: read_byte_def stream_read_def read_bytes_def)

lemma read_byte_Cons:
  "unread s = b # bs \<Longrightarrow> read_byte s = Inr (uint b, \<lparr>unread = bs, offset = offset s + 1\<rparr>)"
  by (simp add: read_byte_def stream_read_def read_bytes_def)

lemma read_byte_shorter:
  "read_byte s = Inr (v, s') \<Longrightarrow> length (unread s') < length (unread s)"
  by (cases "unread s") (auto simp: read_byte_Nil read_byte_Cons)

section \<open>Varint decoder\<close>

text \<open>The \<open>while True\<close> loop of \<open>parse_varint\<close>, with its two variables as arguments.\<close>

function varint_loop :: "int \<Rightarrow> nat \<Rightarrow> stream \<Rightarrow> error + (int \<times> stream)" where
  "varint_loop n shift s =
     (case read_byte s of
        Inl e \<Rightarrow> Inl e
      | Inr (val, s') \<Rightarrow>
          (let n' = n OR push_bit shift (val AND 0x7F)
           in if val AND 0x80 = 0 then Inr (n', s') else varint_loop n' (shift + 7) s'))"
  by pat_completeness auto
termination
  by (relation "measure (\<lambda>(n, shift, s). length (unread s))")
     (auto dest: read_byte_shorter)

declare varint_loop.simps [simp del]

definition parse_varint :: "stream \<Rightarrow> error + (int \<times> stream)" where
  "parse_varint s = varint_loop 0 0 s"

section \<open>Binary-object head decoder\<close>

datatype MajorType =
  UNSIGNED_INT | NEGATIVE_INT | BYTE_STRING | TEXT_STRING | ARRAY | MAP | TAG | FLOAT

text \<open>\<open>MajorType(v)\<close>: the enum member with value \<open>v\<close>, \<open>ValueError\<close> when there is none.\<close>

definition MajorType_of :: "int \<Rightarrow> MajorType option" where
  "MajorType_of v =
     (if v = 0 then Some UNSIGNED_INT else if v = 1 then Some NEGATIVE_INT
      else if v = 2 then Some BYTE_STRING else if v = 3 then Some TEXT_STRING
      else if v = 4 then Some ARRAY else if v = 5 then Some MAP
      else if v = 6 then Some TAG else if v = 7 then Some FLOAT else None)"

text \<open>\<open>int.from_bytes(bs, "big")\<close>.\<close>

definition from_bytes_big :: "byte list \<Rightarrow> int" where
  "from_bytes_big bs = foldl (\<lambda>acc b. acc * 256 + uint b) 0 bs"

text \<open>
  \<open>struct.unpack\<close> with the formats \<open>"!e"\<close>, \<open>"!f"\<close> and \<open>"!d"\<close>: an IEEE 754 binary
  interchange value of \<open>ebits\<close> exponent bits and \<open>mbits\<close> fraction bits, big-endian.
\<close>

definition ieee_decode :: "nat \<Rightarrow> nat \<Rightarrow> byte list \<Rightarrow> pyfloat" where
  "ieee_decode ebits mbits bs =
     (let n = from_bytes_big bs;
          negative = (n div 2 ^ (ebits + mbits) = 1);
          ex = (n div 2 ^ mbits) mod 2 ^ ebits;
          mant = n mod 2 ^ mbits;
          bias = 2 ^ (ebits - 1) - 1;
          sign = (if negative then - 1 else 1 :: real)
      in if ex = 2 ^ ebits - 1 then (if mant = 0 then Infinity (\<not> negative) else NaN)
         else if ex = 0 then Finite (sign * of_int mant * 2 powi (1 - bias - int mbits))
         else Finite (sign * of_int (2 ^ mbits + mant) * 2 powi (ex - bias - int mbits)))"

text \<open>The dictionary \<open>BYTE_LENGTHS\<close>.\<close>

definition BYTE_LENGTHS :: "int \<Rightarrow> int option" where
  "BYTE_LENGTHS ai =
     (if ai = 24 then Some 1 else if ai = 25 then Some 2
      else if ai = 26 then Some 4 else if ai = 27 then Some 8 else None)"

definition parse_cbor_head :: "stream \<Rightarrow> error + ((MajorType \<times> pyval) \<times> stream)" where
  "parse_cbor_head s =
     (case read_byte s of
        Inl e \<Rightarrow> Inl e
      | Inr (first, s1) \<Rightarrow>
        (case MajorType_of (drop_bit 5 first) of
           None \<Rightarrow> Inl (ValueError ''not a valid MajorType'')
         | Some major_type \<Rightarrow>
           (let additional_info = first AND 0x1F in
            if additional_info < 24 then
              (if major_type = FLOAT then
                 (if additional_info = 20 then Inr ((major_type, PBool False), s1)
                  else if additional_info = 21 then Inr ((major_type, PBool True), s1)
                  else if additional_info = 22 then Inr ((major_type, PNone), s1)
                  else Inl KeyError)
               else Inr ((major_type, PInt additional_info), s1))
            else
              (case BYTE_LENGTHS additional_info of
                 Some n \<Rightarrow>
                   (case stream_read n s1 of
                      Inl e \<Rightarrow> Inl e
                    | Inr (byte_value, s2) \<Rightarrow>
                        if major_type = NEGATIVE_INT then
                          Inr ((major_type, PInt (- 1 - from_bytes_big byte_value)), s2)
                        else if major_type = FLOAT then
                          (if length byte_value = 1 then Inl (PyException ''invalid'')
                           else if length byte_value = 2 then
                             Inr ((major_type, PFloat (ieee_decode 5 10 byte_value)), s2)
                           else if length byte_value = 4 then
                             Inr ((major_type, PFloat (ieee_decode 8 23 byte_value)), s2)
                           else if length byte_value = 8 then
                             Inr ((major_type, PFloat (ieee_decode 11 52 byte_value)), s2)
                           else Inl (PyException ''unreachable''))
                        else Inr ((major_type, PInt (from_bytes_big byte_value)), s2))
               | None \<Rightarrow>
                   if additional_info = 31 then
                     Inl (PyException ''indefinite lengths not supported by this implementation'')
                   else Inl (PyException ''not well-formed'')))))"

lemma stream_read_le:
  "stream_read n s = Inr (bs, s') \<Longrightarrow> length (unread s') \<le> length (unread s)"
  by (auto simp: stream_read_def read_bytes_def Let_def split: if_splits)

lemma parse_cbor_head_shorter:
  assumes "parse_cbor_head s = Inr (r, s')"
  shows "length (unread s') < length (unread s)"
proof -
  from assms obtain first s1 where rb: "read_byte s = Inr (first, s1)"
    by (auto simp: parse_cbor_head_def split: sum.splits)
  have lt: "length (unread s1) < length (unread s)"
    using rb by (rule read_byte_shorter)
  have "length (unread s') \<le> length (unread s1)"
    using assms rb
    by (auto simp: parse_cbor_head_def Let_def
             split: option.splits if_splits prod.splits sum.splits dest: stream_read_le)
  with lt show ?thesis by simp
qed

section \<open>Text and CID strings\<close>

text \<open>\<open>bytes.decode()\<close>: strict UTF-8; \<open>None\<close> stands for \<open>UnicodeDecodeError\<close>.\<close>

definition is_cont :: "byte \<Rightarrow> bool" where
  "is_cont b = (0x80 \<le> unat b \<and> unat b \<le> 0xBF)"

fun utf8_decode :: "byte list \<Rightarrow> pystr option" where
  "utf8_decode [] = Some []"
| "utf8_decode (b0 # bs) =
     (let c0 = unat b0 in
      if c0 < 0x80 then map_option ((#) c0) (utf8_decode bs)
      else if 0xC2 \<le> c0 \<and> c0 \<le> 0xDF then
        (case bs of
           b1 # r \<Rightarrow>
             if is_cont b1
             then map_option ((#) ((c0 - 0xC0) * 64 + (unat b1 - 0x80))) (utf8_decode r)
             else None
         | _ \<Rightarrow> None)
      else if 0xE0 \<le> c0 \<and> c0 \<le> 0xEF then
        (case bs of
           b1 # b2 # r \<Rightarrow>
             if is_cont b1 \<and> is_cont b2
                \<and> (c0 = 0xE0 \<longrightarrow> 0xA0 \<le> unat b1) \<and> (c0 = 0xED \<longrightarrow> unat b1 \<le> 0x9F)
             then map_option
                    ((#) ((c0 - 0xE0) * 4096 + (unat b1 - 0x80) * 64 + (unat b2 - 0x80)))
                    (utf8_decode r)
             else None
         | _ \<Rightarrow> None)
      else if 0xF0 \<le> c0 \<and> c0 \<le> 0xF4 then
        (case bs of
           b1 # b2 # b3 # r \<Rightarrow>
             if is_cont b1 \<and> is_cont b2 \<and> is_cont b3
                \<and> (c0 = 0xF0 \<longrightarrow> 0x90 \<le> unat b1) \<and> (c0 = 0xF4 \<longrightarrow> unat b1 \<le> 0x8F)
             then map_option
                    ((#) ((c0 - 0xF0) * 262144 + (unat b1 - 0x80) * 4096
                          + (unat b2 - 0x80) * 64 + (unat b3 - 0x80)))
                    (utf8_decode r)
             else None
         | _ \<Rightarrow> None)
      else None)"

fun chunks :: "nat \<Rightarrow> 'a list \<Rightarrow> 'a list list" where
  "chunks n [] = []"
| "chunks n (x # xs) =
     (if n = 0 then [] else take n (x # xs) # chunks n (drop n (x # xs)))"

text \<open>
  \<open>base64.b32encode\<close>: the input is padded with zero bytes to a multiple of five, each
  five bytes give eight characters of the RFC 4648 alphabet, and the characters that
  encode only padding are replaced by \<open>=\<close>.
\<close>

definition b32_char :: "nat \<Rightarrow> nat" where
  "b32_char i = (if i < 26 then 65 + i else 24 + i)"

definition b32_quantum :: "byte list \<Rightarrow> nat list" where
  "b32_quantum q =
     (let c = from_bytes_big q
      in map (\<lambda>i. b32_char (nat ((c div 2 ^ (5 * (7 - i))) mod 32))) [0..<8])"

definition b32encode :: "byte list \<Rightarrow> pystr" where
  "b32encode bs =
     (let leftover = length bs mod 5;
          padded = (if leftover = 0 then bs else bs @ replicate (5 - leftover) 0);
          encoded = concat (map b32_quantum (chunks 5 padded));
          npad = (if leftover = 1 then 6 else if leftover = 2 then 4
                  else if leftover = 3 then 3 else if leftover = 4 then 1 else 0)
      in take (length encoded - npad) encoded @ replicate npad 61)"

text \<open>\<open>str.lower\<close> on the ASCII output of \<open>b32encode\<close>, and \<open>str.rstrip("=")\<close>.\<close>

definition ascii_lower :: "pystr \<Rightarrow> pystr" where
  "ascii_lower cs = map (\<lambda>c. if 65 \<le> c \<and> c \<le> 90 then c + 32 else c) cs"

definition rstrip_eq :: "pystr \<Rightarrow> pystr" where
  "rstrip_eq cs = rev (dropWhile (\<lambda>c. c = 61) (rev cs))"

text \<open>\<open>"b" + base64.b32encode(raw).decode().lower().rstrip("=")\<close>.\<close>

definition cid_string :: "byte list \<Rightarrow> pystr" where
  "cid_string raw = str_lit ''b'' @ rstrip_eq (ascii_lower (b32encode raw))"

definition startswith :: "'a list \<Rightarrow> 'a list \<Rightarrow> bool" where
  "startswith bs p = (take (length p) bs = p)"

definition endswith :: "'a list \<Rightarrow> 'a list \<Rightarrow> bool" where
  "endswith bs sfx = (length sfx \<le> length bs \<and> drop (length bs - length sfx) bs = sfx)"

section \<open>Self-describing value decoder\<close>

text \<open>
  The functions of the module are declared \<open>async\<close> but never suspend: each \<open>await\<close> is
  a plain call. The decoder recurses once per nesting level of the input; the
  interpreter's recursion limit is not modelled, so a deeply nested input is decoded
  where CPython would raise \<open>RecursionError\<close>.

  The head of a string, array, map or tag always carries an \<open>int\<close>; the other case
  is the \<open>TypeError\<close> Python would raise on using the value as a count.
\<close>

definition int_info :: "pyval \<Rightarrow> error + int" where
  "int_info v = (case v of PInt n \<Rightarrow> Inr n | _ \<Rightarrow> Inl TypeError)"

function parse_dag_cbor_object :: "stream \<Rightarrow> error + (pyval \<times> stream)"
  and parse_array_items :: "nat \<Rightarrow> stream \<Rightarrow> pyval list \<Rightarrow> error + (pyval list \<times> stream)"
  and parse_map_entries ::
    "nat \<Rightarrow> stream \<Rightarrow> (pyval \<times> pyval) list \<Rightarrow> error + ((pyval \<times> pyval) list \<times> stream)"
where
  "parse_dag_cbor_object s =
     (case parse_cbor_head s of
        Inl e \<Rightarrow> Inl e
      | Inr ((major_type, info), s1) \<Rightarrow>
        (case major_type of
           UNSIGNED_INT \<Rightarrow> Inr (info, s1)
         | NEGATIVE_INT \<Rightarrow> Inr (info, s1)
         | FLOAT \<Rightarrow> Inr (info, s1)
         | BYTE_STRING \<Rightarrow>
             (case int_info info of
                Inl e \<Rightarrow> Inl e
              | Inr n \<Rightarrow>
                (case stream_read n s1 of
                   Inl e \<Rightarrow> Inl e
                 | Inr (value, s2) \<Rightarrow>
                     if int (length value) \<noteq> n then Inl EOFError
                     else Inr (PBytes value, s2)))
         | TEXT_STRING \<Rightarrow>
             (case int_info info of
                Inl e \<Rightarrow> Inl e
              | Inr n \<Rightarrow>
                (case stream_read n s1 of
                   Inl e \<Rightarrow> Inl e
                 | Inr (value, s2) \<Rightarrow>
                     if int (length value) \<noteq> n then Inl EOFError
                     else (case utf8_decode value of
                             None \<Rightarrow> Inl UnicodeDecodeError
                           | Some text \<Rightarrow> Inr (PStr text, s2))))
         | ARRAY \<Rightarrow>
             (case int_info info of
                Inl e \<Rightarrow> Inl e
              | Inr n \<Rightarrow>
                (case parse_array_items (nat n) s1 [] of
                   Inl e \<Rightarrow> Inl e
                 | Inr (values, s2) \<Rightarrow> Inr (PList values, s2)))
         | MAP \<Rightarrow>
             (case int_info info of
                Inl e \<Rightarrow> Inl e
              | Inr n \<Rightarrow>
                (case parse_map_entries (nat n) s1 [] of
                   Inl e \<Rightarrow> Inl e
                 | Inr (values, s2) \<Rightarrow> Inr (PDict values, s2)))
         | TAG \<Rightarrow>
             if info \<noteq> PInt 42 then Inl (PyException ''non-42 tags are not supported'')
             else
               (case parse_dag_cbor_object s1 of
                  Inl e \<Rightarrow> Inl e
                | Inr (cid_bytes, s2) \<Rightarrow>
                  (case cid_bytes of
                     PBytes bs \<Rightarrow>
                       if length bs \<noteq> 37 then Inl (AssertionError TagLength)
                       else if \<not> (startswith bs [0x00, 0x01, 0x71, 0x12, 0x20]
                                   \<or> startswith bs [0x00, 0x01, 0x55, 0x12, 0x20])
                       then Inl (AssertionError TagPrefix)
                       else Inr (PStr (cid_string (drop 1 bs)), s2)
                   | _ \<Rightarrow> Inl (AssertionError TagNotBytes)))))"
| "parse_array_items n s values =
     (if n = 0 then Inr (values, s)
      else (case parse_dag_cbor_object s of
              Inl e \<Rightarrow> Inl e
            | Inr (v, s') \<Rightarrow> parse_array_items (n - 1) s' (values @ [v])))"
| "parse_map_entries n s values =
     (if n = 0 then Inr (values, s)
      else (case parse_dag_cbor_object s of
              Inl e \<Rightarrow> Inl e
            | Inr (key, s1) \<Rightarrow>
              (case key of
                 PStr k \<Rightarrow>
                   (case parse_dag_cbor_object s1 of
                      Inl e \<Rightarrow> Inl e
                    | Inr (v, s2) \<Rightarrow> parse_map_entries (n - 1) s2 (dict_set key v values))
               | _ \<Rightarrow> Inl (ValueError ''DAG-CBOR only accepts strings as map keys''))))"
  by pat_completeness auto

lemma parse_shorter_partial:
  "parse_dag_cbor_object_parse_array_items_parse_map_entries_dom (Inl s) \<Longrightarrow>
     parse_dag_cbor_object s = Inr (v, s') \<Longrightarrow> length (unread s') < length (unread s)"
  "parse_dag_cbor_object_parse_array_items_parse_map_entries_dom (Inr (Inl (n, t, vs))) \<Longrightarrow>
     parse_array_items n t vs = Inr (r, t') \<Longrightarrow> length (unread t') \<le> length (unread t)"
  "parse_dag_cbor_object_parse_array_items_parse_map_entries_dom (Inr (Inr (m, u, d))) \<Longrightarrow>
     parse_map_entries m u d = Inr (q, u') \<Longrightarrow> length (unread u') \<le> length (unread u)"
proof (induction arbitrary: v s' and r t' and q u'
       rule: parse_dag_cbor_object_parse_array_items_parse_map_entries.pinduct)
  case (1 s)
  from "1.prems" obtain major_type info s1 where
    head: "parse_cbor_head s = Inr ((major_type, info), s1)"
    by (auto simp: parse_dag_cbor_object.psimps [OF "1.hyps"] split: sum.splits)
  have lt: "length (unread s1) < length (unread s)"
    using head by (rule parse_cbor_head_shorter)
  have "length (unread s') \<le> length (unread s1)"
  proof (cases major_type)
    case ARRAY
    then show ?thesis
      using "1.prems" head "1.IH"(1) [OF head refl refl ARRAY]
      by (auto simp: parse_dag_cbor_object.psimps [OF "1.hyps"] split: sum.splits)
  next
    case MAP
    then show ?thesis
      using "1.prems" head "1.IH"(2) [OF head refl refl MAP]
      by (auto simp: parse_dag_cbor_object.psimps [OF "1.hyps"] split: sum.splits)
  next
    case TAG
    then show ?thesis
      using "1.prems" head "1.IH"(3) [OF head refl refl TAG]
      by (fastforce simp: parse_dag_cbor_object.psimps [OF "1.hyps"]
            split: sum.splits if_splits pyval.splits)
  qed (use "1.prems" head in \<open>auto simp: parse_dag_cbor_object.psimps [OF "1.hyps"]
         split: sum.splits if_splits prod.splits option.splits dest: stream_read_le\<close>)
  with lt show ?case by simp
next
  case (2 n s acc)
  show ?case
  proof (cases "n = 0")
    case True
    show ?thesis
      using "2.prems" unfolding parse_array_items.psimps [OF "2.hyps"]
      using True by simp
  next
    case False
    from "2.prems" [unfolded parse_array_items.psimps [OF "2.hyps"]] False obtain v s1 where
      obj: "parse_dag_cbor_object s = Inr (v, s1)" and
      rest: "parse_array_items (n - 1) s1 (acc @ [v]) = Inr (r, t')"
      by (auto split: sum.splits)
    have "length (unread s1) < length (unread s)"
      using "2.IH"(1) [OF False obj] .
    moreover have "length (unread t') \<le> length (unread s1)"
      using "2.IH"(2) [OF False obj refl rest] .
    ultimately show ?thesis by simp
  qed
next
  case (3 n s acc)
  show ?case
  proof (cases "n = 0")
    case True
    show ?thesis
      using "3.prems" unfolding parse_map_entries.psimps [OF "3.hyps"]
      using True by simp
  next
    case False
    from "3.prems" [unfolded parse_map_entries.psimps [OF "3.hyps"]] False obtain k s1 v s2 where
      key: "parse_dag_cbor_object s = Inr (PStr k, s1)" and
      val: "parse_dag_cbor_object s1 = Inr (v, s2)" and
      rest: "parse_map_entries (n - 1) s2 (dict_set (PStr k) v acc) = Inr (q, u')"
      by (auto split: sum.splits pyval.splits)
    have "length (unread s1) < length (unread s)"
      using "3.IH"(1) [OF False key] .
    moreover have "length (unread s2) < length (unread s1)"
      using "3.IH"(2) [OF False key refl refl val] .
    moreover have "length (unread u') \<le> length (unread s2)"
      using "3.IH"(3) [OF False key refl refl val refl rest] .
    ultimately show ?thesis by simp
  qed
qed

termination parse_dag_cbor_object
proof (relation "measures [\<lambda>x. case x of Inl s \<Rightarrow> length (unread s) | Inr (Inl (n, s, vs)) \<Rightarrow> length (unread s) | Inr (Inr (n, s, vs)) \<Rightarrow> length (unread s), \<lambda>x. case x of Inl s \<Rightarrow> 0 | _ \<Rightarrow> 1]", goal_cases)
  case 1
  then show ?case by simp
next
  case (2 s b x y xa ya ba)
  then show ?case using parse_cbor_head_shorter [of s x y] by simp
next
  case (3 s b x y xa ya ba)
  then show ?case using parse_cbor_head_shorter [of s x y] by simp
next
  case (4 s b x y xa ya)
  then show ?case using parse_cbor_head_shorter [of s x y] by simp
next
  case (5 n s acc)
  then show ?case by simp
next
  case (6 n s acc b x y)
  then show ?case using parse_shorter_partial(1) [of s x y] by simp
next
  case (7 n s acc)
  then show ?case by simp
next
  case (8 n s acc b x y x6)
  then show ?case using parse_shorter_partial(1) [of s x y] by simp
next
  case (9 n s acc b x y x6 ba xa ya)
  then show ?case
    using parse_shorter_partial(1) [of s x y] parse_shorter_partial(1) [of y xa ya] by simp
qed

declare parse_dag_cbor_object.simps [simp del] parse_array_items.simps [simp del]
  parse_map_entries.simps [simp del]

lemma varint_loop_shorter:
  "varint_loop n shift s = Inr (v, s') \<Longrightarrow> length (unread s') < length (unread s)"
proof (induction n shift s rule: varint_loop.induct)
  case (1 n shift s)
  from "1.prems" obtain val s1 where rb: "read_byte s = Inr (val, s1)"
    by (subst (asm) varint_loop.simps) (auto split: sum.splits)
  have lt: "length (unread s1) < length (unread s)"
    using rb by (rule read_byte_shorter)
  show ?case
  proof (cases "val AND 0x80 = 0")
    case True
    with "1.prems" rb have "s' = s1"
      by (subst (asm) varint_loop.simps) (simp add: Let_def)
    with lt show ?thesis by simp
  next
    case False
    with "1.prems" rb have
      "varint_loop (n OR push_bit shift (val AND 0x7F)) (shift + 7) s1 = Inr (v, s')"
      by (subst (asm) varint_loop.simps) (simp add: Let_def)
    from "1.IH" [OF rb refl refl False this] lt show ?thesis by simp
  qed
qed

lemma parse_varint_shorter:
  "parse_varint s = Inr (v, s') \<Longrightarrow> length (unread s') < length (unread s)"
  unfolding parse_varint_def by (rule varint_loop_shorter)

lemma varint_loop_nonneg:
  "varint_loop n shift s = Inr (v, s') \<Longrightarrow> 0 \<le> n \<Longrightarrow> 0 \<le> v"
proof (induction n shift s rule: varint_loop.induct)
  case (1 n shift s)
  from "1.prems"(1) obtain val s1 where rb: "read_byte s = Inr (val, s1)"
    by (subst (asm) varint_loop.simps) (auto split: sum.splits)
  have acc: "0 \<le> n OR push_bit shift (val AND 0x7F)"
    using "1.prems"(2) by simp
  show ?case
  proof (cases "val AND 0x80 = 0")
    case True
    with "1.prems"(1) rb have "v = n OR push_bit shift (val AND 0x7F)"
      by (subst (asm) varint_loop.simps) (simp add: Let_def)
    with acc show ?thesis by simp
  next
    case False
    with "1.prems"(1) rb have
      "varint_loop (n OR push_bit shift (val AND 0x7F)) (shift + 7) s1 = Inr (v, s')"
      by (subst (asm) varint_loop.simps) (simp add: Let_def)
    from "1.IH" [OF rb refl refl False this acc] show ?thesis .
  qed
qed

lemma parse_varint_nonneg: "parse_varint s = Inr (v, s') \<Longrightarrow> 0 \<le> v"
  unfolding parse_varint_def using varint_loop_nonneg [of 0 0 s v s'] by simp

section \<open>SHA-256\<close>

text \<open>
  \<open>hashlib.sha256(data).digest()\<close>, as FIPS 180-4 defines it: the message is padded to
  a multiple of 64 bytes and each block updates eight 32-bit words.
\<close>

definition rotr :: "nat \<Rightarrow> 32 word \<Rightarrow> 32 word" where
  "rotr n x = drop_bit n x OR push_bit (32 - n) x"

definition sha_k :: "32 word list" where
  "sha_k = [
  0x428A2F98, 0x71374491, 0xB5C0FBCF, 0xE9B5DBA5, 0x3956C25B, 0x59F111F1, 0x923F82A4, 0xAB1C5ED5,
  0xD807AA98, 0x12835B01, 0x243185BE, 0x550C7DC3, 0x72BE5D74, 0x80DEB1FE, 0x9BDC06A7, 0xC19BF174,
  0xE49B69C1, 0xEFBE4786, 0x0FC19DC6, 0x240CA1CC, 0x2DE92C6F, 0x4A7484AA, 0x5CB0A9DC, 0x76F988DA,
  0x983E5152, 0xA831C66D, 0xB00327C8, 0xBF597FC7, 0xC6E00BF3, 0xD5A79147, 0x06CA6351, 0x14292967,
  0x27B70A85, 0x2E1B2138, 0x4D2C6DFC, 0x53380D13, 0x650A7354, 0x766A0ABB, 0x81C2C92E, 0x92722C85,
  0xA2BFE8A1, 0xA81A664B, 0xC24B8B70, 0xC76C51A3, 0xD192E819, 0xD6990624, 0xF40E3585, 0x106AA070,
  0x19A4C116, 0x1E376C08, 0x2748774C, 0x34B0BCB5, 0x391C0CB3, 0x4ED8AA4A, 0x5B9CCA4F, 0x682E6FF3,
  0x748F82EE, 0x78A5636F, 0x84C87814, 0x8CC70208, 0x90BEFFFA, 0xA4506CEB, 0xBEF9A3F7, 0xC67178F2]"

definition sha_h0 :: "32 word list" where
  "sha_h0 = [0x6A09E667, 0xBB67AE85, 0x3C6EF372, 0xA54FF53A,
             0x510E527F, 0x9B05688C, 0x1F83D9AB, 0x5BE0CD19]"

definition be_word :: "byte list \<Rightarrow> 32 word" where
  "be_word bs = foldl (\<lambda>acc b. push_bit 8 acc OR ucast b) 0 bs"

definition word_bytes :: "32 word \<Rightarrow> byte list" where
  "word_bytes w = [ucast (drop_bit 24 w), ucast (drop_bit 16 w), ucast (drop_bit 8 w), ucast w]"

text \<open>The message length in bits, as eight big-endian bytes.\<close>

definition len_bytes :: "nat \<Rightarrow> byte list" where
  "len_bytes n =
     (let l = (of_nat n :: 64 word) in map (\<lambda>i. ucast (drop_bit (8 * (7 - i)) l)) [0..<8])"

definition sha_pad :: "byte list \<Rightarrow> byte list" where
  "sha_pad m =
     m @ [0x80] @ replicate ((119 - length m mod 64) mod 64) 0 @ len_bytes (8 * length m)"

text \<open>The message schedule: \<open>n\<close> more words after the sixteen of the block.\<close>

fun schedule :: "nat \<Rightarrow> 32 word list \<Rightarrow> 32 word list" where
  "schedule 0 w = w"
| "schedule (Suc n) w =
     (let t = length w;
          w15 = w ! (t - 15); w2 = w ! (t - 2);
          s0 = rotr 7 w15 XOR rotr 18 w15 XOR drop_bit 3 w15;
          s1 = rotr 17 w2 XOR rotr 19 w2 XOR drop_bit 10 w2
      in schedule n (w @ [w ! (t - 16) + s0 + w ! (t - 7) + s1]))"

definition sha_round :: "32 word list \<Rightarrow> 32 word \<times> 32 word \<Rightarrow> 32 word list" where
  "sha_round st kw =
     (let a = st ! 0; b = st ! 1; c = st ! 2; d = st ! 3;
          e = st ! 4; f = st ! 5; g = st ! 6; h = st ! 7;
          s1 = rotr 6 e XOR rotr 11 e XOR rotr 25 e;
          ch = (e AND f) XOR (NOT e AND g);
          t1 = h + s1 + ch + fst kw + snd kw;
          s0 = rotr 2 a XOR rotr 13 a XOR rotr 22 a;
          mj = (a AND b) XOR (a AND c) XOR (b AND c);
          t2 = s0 + mj
      in [t1 + t2, a, b, c, d + t1, e, f, g])"

definition sha_block :: "32 word list \<Rightarrow> byte list \<Rightarrow> 32 word list" where
  "sha_block hs blk =
     (let w = schedule 48 (map be_word (chunks 4 blk))
      in map2 (+) hs (foldl sha_round hs (zip sha_k w)))"

definition sha256 :: "byte list \<Rightarrow> byte list" where
  "sha256 m = concat (map word_bytes (foldl sha_block sha_h0 (chunks 64 (sha_pad m))))"

section \<open>Container parser\<close>

text \<open>
  \<open>x == n\<close> for an \<open>int\<close> literal \<open>n\<close>: \<open>bool\<close> is a subclass of \<open>int\<close>, and a
  \<open>float\<close> is compared by value.
\<close>

definition py_eq_int :: "pyval \<Rightarrow> int \<Rightarrow> bool" where
  "py_eq_int x n =
     (case x of
        PInt i \<Rightarrow> i = n
      | PBool b \<Rightarrow> (if b then 1 else 0) = n
      | PFloat f \<Rightarrow> (case f of Finite r \<Rightarrow> r = of_int n | _ \<Rightarrow> False)
      | _ \<Rightarrow> False)"

text \<open>\<open>len(x)\<close>.\<close>

definition py_len :: "pyval \<Rightarrow> error + int" where
  "py_len x =
     (case x of
        PBytes bs \<Rightarrow> Inr (int (length bs))
      | PStr cs \<Rightarrow> Inr (int (length cs))
      | PList vs \<Rightarrow> Inr (int (length vs))
      | PDict d \<Rightarrow> Inr (int (length d))
      | _ \<Rightarrow> Inl TypeError)"

text \<open>\<open>x[0]\<close>.\<close>

definition py_getitem0 :: "pyval \<Rightarrow> error + pyval" where
  "py_getitem0 x =
     (case x of
        PBytes bs \<Rightarrow> (case bs of [] \<Rightarrow> Inl IndexError | b # _ \<Rightarrow> Inr (PInt (uint b)))
      | PStr cs \<Rightarrow> (case cs of [] \<Rightarrow> Inl IndexError | c # _ \<Rightarrow> Inr (PStr [c]))
      | PList vs \<Rightarrow> (case vs of [] \<Rightarrow> Inl IndexError | v # _ \<Rightarrow> Inr v)
      | PDict d \<Rightarrow>
          (case find (\<lambda>kv. py_eq_int (fst kv) 0) d of
             None \<Rightarrow> Inl KeyError
           | Some kv \<Rightarrow> Inr (snd kv))
      | _ \<Rightarrow> Inl TypeError)"

text \<open>Lines 158 to 160 of \<open>parse_car\<close>: the checks on the decoded header and its root.\<close>

definition car_header_root :: "pyval \<Rightarrow> error + pyval" where
  "car_header_root car_header =
     (case car_header of
        PDict h \<Rightarrow>
          if \<not> py_eq_int (dict_get h ''version'') 1 then Inl (AssertionError HeaderVersion)
          else
            (case py_len (case map_of h (PStr (str_lit ''roots'')) of
                            None \<Rightarrow> PList [] | Some r \<Rightarrow> r) of
               Inl e \<Rightarrow> Inl e
             | Inr l \<Rightarrow>
                 if l \<noteq> 1 then Inl (AssertionError HeaderRoots)
                 else (case dict_item h ''roots'' of
                         Inl e \<Rightarrow> Inl e
                       | Inr roots \<Rightarrow> py_getitem0 roots))
      | _ \<Rightarrow> Inl AttributeError)"

text \<open>
  The body of the \<open>while\<close> loop of \<open>parse_car\<close>: one block. The call
  \<open>block_data_stream.read()\<close> has no count and returns what is left.
\<close>

definition parse_car_block :: "stream \<Rightarrow> error + ((pystr \<times> pyval) \<times> stream)" where
  "parse_car_block s =
     (case parse_varint s of
        Inl e \<Rightarrow> Inl e
      | Inr (block_len, s1) \<Rightarrow>
        (let block_start = offset s1 in
         case stream_read 36 s1 of
           Inl e \<Rightarrow> Inl e
         | Inr (cid_raw, s2) \<Rightarrow>
             if \<not> startswith cid_raw [0x01, 0x71, 0x12, 0x20]
             then Inl (AssertionError BlockPrefix)
             else
               (let cid = cid_string cid_raw in
                case stream_read (block_len - 36) s2 of
                  Inl e \<Rightarrow> Inl e
                | Inr (block_data, s3) \<Rightarrow>
                    (let content_hash = sha256 block_data in
                     if \<not> endswith cid_raw content_hash
                     then Inl (AssertionError BlockDigest)
                     else
                       (case parse_dag_cbor_object (BytesIO block_data) of
                          Inl e \<Rightarrow> Inl e
                        | Inr (block, block_data_stream) \<Rightarrow>
                            if fst (read_bytes (- 1) block_data_stream) \<noteq> []
                            then Inl (AssertionError BlockTrailing)
                            else if int (offset s3) - int block_start \<noteq> block_len
                            then Inl (AssertionError BlockFraming)
                            else Inr ((cid, block), s3))))))"

lemma parse_car_block_shorter:
  assumes "parse_car_block s = Inr (r, s')"
  shows "length (unread s') < length (unread s)"
proof -
  from assms obtain block_len s1 where pv: "parse_varint s = Inr (block_len, s1)"
    by (auto simp: parse_car_block_def split: sum.splits)
  have lt: "length (unread s1) < length (unread s)"
    using pv by (rule parse_varint_shorter)
  from assms pv obtain cid_raw s2 where r1: "stream_read 36 s1 = Inr (cid_raw, s2)"
    by (auto simp: parse_car_block_def Let_def split: sum.splits)
  from assms pv r1 obtain block_data s3 where
    r2: "stream_read (block_len - 36) s2 = Inr (block_data, s3)"
    by (auto simp: parse_car_block_def Let_def split: sum.splits if_splits)
  have "s' = s3"
    using assms pv r1 r2
    by (auto simp: parse_car_block_def Let_def split: sum.splits if_splits)
  moreover have "length (unread s3) \<le> length (unread s1)"
    using stream_read_le [OF r1] stream_read_le [OF r2] by simp
  ultimately show ?thesis using lt by simp
qed

text \<open>The loop \<open>while stream.tell() != length\<close>, with \<open>nodes\<close> as accumulator.\<close>

function parse_car_blocks ::
  "int \<Rightarrow> stream \<Rightarrow> (pystr \<times> pyval) list \<Rightarrow> error + (pystr \<times> pyval) list" where
  "parse_car_blocks len s nodes =
     (if int (offset s) = len then Inr nodes
      else (case parse_car_block s of
              Inl e \<Rightarrow> Inl e
            | Inr ((cid, block), s') \<Rightarrow> parse_car_blocks len s' (dict_set cid block nodes)))"
  by pat_completeness auto
termination
  by (relation "measure (\<lambda>(len, s, nodes). length (unread s))")
     (auto dest: parse_car_block_shorter)

declare parse_car_blocks.simps [simp del]

definition parse_car :: "stream \<Rightarrow> int \<Rightarrow> error + (pyval \<times> (pystr \<times> pyval) list)" where
  "parse_car s len =
     (case parse_varint s of
        Inl e \<Rightarrow> Inl e
      | Inr (header_len, s1) \<Rightarrow>
        (let header_start = offset s1 in
         case parse_dag_cbor_object s1 of
           Inl e \<Rightarrow> Inl e
         | Inr (car_header, s2) \<Rightarrow>
             if int (offset s2) - int header_start \<noteq> header_len
             then Inl (AssertionError HeaderFraming)
             else
               (case car_header_root car_header of
                  Inl e \<Rightarrow> Inl e
                | Inr root_value \<Rightarrow>
                    (case parse_car_blocks len s2 [] of
                       Inl e \<Rightarrow> Inl e
                     | Inr nodes \<Rightarrow> Inr (root_value, nodes)))))"

section \<open>Tree enumerator\<close>







section \<open>Notions used in the statements\<close>

subsection \<open>The dictionary of the deduplication\<close>

text \<open>The dictionary the comprehension builds, and what it holds.\<close>

definition lowered_dict :: "('a \<Rightarrow> 'k) \<Rightarrow> 'a list \<Rightarrow> ('k \<times> 'a) list" where
  "lowered_dict lower xs = foldl (\<lambda>d item. dict_set (lower item) item d) [] xs"

subsection \<open>Varint encoding and bit length\<close>

text \<open>
  The repository only decodes. The encoder below is the standard little-endian
  base-128 encoding the specification refers to: seven bits per byte, least
  significant group first, the high bit set on every byte but the last.
\<close>

function varint_encode :: "nat \<Rightarrow> byte list" where
  "varint_encode n =
     (if n < 128 then [of_nat n] else of_nat (n mod 128 + 128) # varint_encode (n div 128))"
  by pat_completeness auto
termination
  by (relation "measure (\<lambda>n. n)") auto

declare varint_encode.simps [simp del]

text \<open>Python's \<open>int.bit_length\<close> on a natural number.\<close>

fun bit_length :: "nat \<Rightarrow> nat" where
  "bit_length n = (if n = 0 then 0 else Suc (bit_length (n div 2)))"

declare bit_length.simps [simp del]

subsection \<open>String keys\<close>

text \<open>Every key of every dict inside a value is a \<open>str\<close>.\<close>

fun str_keys :: "pyval \<Rightarrow> bool" where
  "str_keys (PList vs) = (\<forall>v \<in> set vs. str_keys v)"
| "str_keys (PDict d) =
     (\<forall>kv \<in> set d. (case fst kv of PStr _ \<Rightarrow> True | _ \<Rightarrow> False) \<and> str_keys (snd kv))"
| "str_keys _ = True"

subsection \<open>Progress of the block loop\<close>

text \<open>
  The state of the loop of \<open>parse_car\<close> after \<open>k\<close> blocks have been read and stored:
  \<open>None\<close> when the loop has ended or raised before that.
\<close>

fun blocks_after ::
  "int \<Rightarrow> nat \<Rightarrow> stream \<Rightarrow> (pystr \<times> pyval) list \<Rightarrow> (stream \<times> (pystr \<times> pyval) list) option"
where
  "blocks_after len 0 s nodes = Some (s, nodes)"
| "blocks_after len (Suc k) s nodes =
     (if int (offset s) = len then None
      else (case parse_car_block s of
              Inl e \<Rightarrow> None
            | Inr ((cid, block), s') \<Rightarrow> blocks_after len k s' (dict_set cid block nodes)))"

subsection \<open>Example containers\<close>

text \<open>
  The payload \<open>0xA0\<close> is the empty map; \<open>empty_map_digest\<close> is its SHA-256 and
  \<open>empty_digest\<close> that of the empty payload.
\<close>

definition empty_map_digest :: "byte list" where
  "empty_map_digest =
     [0xC1, 0x9A, 0x79, 0x7F, 0xA1, 0xFD, 0x59, 0x0C, 0xD2, 0xE5, 0xB4, 0x2D, 0x1C, 0xF5, 0xF2, 0x46,
      0xE2, 0x9B, 0x91, 0x68, 0x4E, 0x2F, 0x87, 0x40, 0x4B, 0x81, 0xDC, 0x34, 0x5C, 0x7A, 0x56, 0xA0]"

definition empty_digest :: "byte list" where
  "empty_digest =
     [0xE3, 0xB0, 0xC4, 0x42, 0x98, 0xFC, 0x1C, 0x14, 0x9A, 0xFB, 0xF4, 0xC8, 0x99, 0x6F, 0xB9, 0x24,
      0x27, 0xAE, 0x41, 0xE4, 0x64, 0x9B, 0x93, 0x4C, 0xA4, 0x95, 0x99, 0x1B, 0x78, 0x52, 0xB8, 0x55]"

text \<open>
  The header \<open>{"roots": [link], "version": 1}\<close>, 58 bytes after its length
  varint; the link is tag 42 around \<open>00 01 71 12 20\<close> and \<open>empty_map_digest\<close>.
\<close>

definition example_header :: "byte list" where
  "example_header =
     [0x3A, 0xA2, 0x65, 0x72, 0x6F, 0x6F, 0x74, 0x73, 0x81, 0xD8, 0x2A, 0x58, 0x25,
      0x00, 0x01, 0x71, 0x12, 0x20] @ empty_map_digest
     @ [0x67, 0x76, 0x65, 0x72, 0x73, 0x69, 0x6F, 0x6E, 0x01]"

definition example_root :: "pyval" where
  "example_root = PStr (cid_string ([0x01, 0x71, 0x12, 0x20] @ empty_map_digest))"

text \<open>Blocks of declared length 37: a 36-byte CID layout and the payload \<open>0xA0\<close>.\<close>

definition good_block :: "byte list" where
  "good_block = [0x25, 0x01, 0x71, 0x12, 0x20] @ empty_map_digest @ [0xA0]"

definition zero_digest :: "byte list" where
  "zero_digest =
     [0x00, 0x00, 0x00, 0x00, 0x00, 0x00, 0x00, 0x00, 0x00, 0x00, 0x00, 0x00, 0x00, 0x00, 0x00, 0x00,
      0x00, 0x00, 0x00, 0x00, 0x00, 0x00, 0x00, 0x00, 0x00, 0x00, 0x00, 0x00, 0x00, 0x00, 0x00, 0x00]"

definition bad_digest_block :: "byte list" where
  "bad_digest_block = [0x25, 0x01, 0x71, 0x12, 0x20] @ zero_digest @ [0xA0]"

definition raw_block :: "byte list" where
  "raw_block = [0x25, 0x01, 0x55, 0x12, 0x20] @ empty_map_digest @ [0xA0]"

text \<open>A block of declared length 0 whose CID layout carries the digest of no bytes.\<close>

definition short_block :: "byte list" where
  "short_block = [0x00, 0x01, 0x71, 0x12, 0x20] @ empty_digest"

text \<open>
  The map with one entry whose key is a link (tag 42 around \<open>00 01 71 12 20\<close> and
  \<open>empty_map_digest\<close>) and whose value is 1: 43 bytes.
\<close>

definition link_keyed_map :: "byte list" where
  "link_keyed_map =
     [0xA1, 0xD8, 0x2A, 0x58, 0x25, 0x00, 0x01, 0x71, 0x12, 0x20] @ empty_map_digest @ [0x01]"

text \<open>
  A header whose version is the boolean \<open>true\<close> and whose roots is the one-character
  text \<open>"a"\<close>: 18 bytes after the length varint, and no blocks.
\<close>

definition loose_header :: "byte list" where
  "loose_header =
     [0x12, 0xA2, 0x65, 0x72, 0x6F, 0x6F, 0x74, 0x73, 0x61, 0x61,
      0x67, 0x76, 0x65, 0x72, 0x73, 0x69, 0x6F, 0x6E, 0xF5]"

text \<open>The header \<open>{"roots": [1, 2], "version": 1}\<close>, 19 bytes after the length varint.\<close>

definition two_roots_header :: "byte list" where
  "two_roots_header =
     [0x13, 0xA2, 0x65, 0x72, 0x6F, 0x6F, 0x74, 0x73, 0x82, 0x01, 0x02,
      0x67, 0x76, 0x65, 0x72, 0x73, 0x69, 0x6F, 0x6E, 0x01]"

section \<open>Properties of the head decoder\<close>

lemma major_type_defined: "\<exists>mt. MajorType_of (drop_bit 5 (uint (b :: byte))) = Some mt"
proof -
  define q where "q = drop_bit 5 (uint b)"
  have "uint b < 256" using uint_bounded [of b] by simp
  then have "q < 8" by (simp add: q_def drop_bit_eq_div)
  moreover have "0 \<le> q" by (simp add: q_def)
  ultimately have "q = 0 \<or> q = 1 \<or> q = 2 \<or> q = 3 \<or> q = 4 \<or> q = 5 \<or> q = 6 \<or> q = 7"
    by arith
  then have "\<exists>mt. MajorType_of q = Some mt"
    by (auto simp: MajorType_of_def)
  then show ?thesis by (simp add: q_def)
qed

text \<open>
  C8. A head byte whose additional info is 31 makes the head decoder raise
  "indefinite lengths not supported by this implementation", whatever the major type
  in its top three bits, and the value decoder, which starts with the head decoder,
  raises the same error: no value is produced.
\<close>

theorem indefinite_length_rejected:
  assumes "unread s = b # rest" and "uint b AND 0x1F = 31"
  shows "parse_cbor_head s =
           Inl (PyException ''indefinite lengths not supported by this implementation'')
         \<and> parse_dag_cbor_object s =
           Inl (PyException ''indefinite lengths not supported by this implementation'')"
proof -
  obtain mt where mt: "MajorType_of (drop_bit 5 (uint b)) = Some mt"
    using major_type_defined by blast
  have head: "parse_cbor_head s =
      Inl (PyException ''indefinite lengths not supported by this implementation'')"
    using assms mt
    by (simp add: parse_cbor_head_def read_byte_Cons [OF assms(1)] BYTE_LENGTHS_def)
  then show ?thesis
    by (simp add: parse_dag_cbor_object.simps)
qed

theorem indefinite_length_rejected_witness:
  "unread (BytesIO [0x5F, 0x41]) = 0x5F # [0x41] \<and> uint (0x5F :: byte) AND 0x1F = 31
   \<and> parse_cbor_head (BytesIO [0x5F, 0x41]) =
       Inl (PyException ''indefinite lengths not supported by this implementation'')
   \<and> parse_dag_cbor_object (BytesIO [0x5F, 0x41]) =
       Inl (PyException ''indefinite lengths not supported by this implementation'')"
proof -
  have h1: "unread (BytesIO [0x5F, 0x41]) = 0x5F # [0x41]" by (simp add: BytesIO_def)
  have h2: "uint (0x5F :: byte) AND 0x1F = 31" by simp
  show ?thesis using h1 h2 indefinite_length_rejected [OF h1 h2] by simp
qed

section \<open>Properties of insertion-ordered dictionaries\<close>

lemma dict_set_keys:
  "map fst (dict_set k v d) = (if k \<in> set (map fst d) then map fst d else map fst d @ [k])"
proof (induction d)
  case Nil
  then show ?case by simp
next
  case (Cons kv d)
  obtain k' v' where kv: "kv = (k', v')" by (cases kv)
  show ?case
  proof (cases "k' = k")
    case True
    then show ?thesis by (simp add: kv)
  next
    case False
    then show ?thesis using Cons.IH by (simp add: kv)
  qed
qed

lemma dict_set_map_of: "map_of (dict_set k v d) = (map_of d)(k \<mapsto> v)"
  by (induction d) (auto simp: fun_eq_iff)

lemma dict_set_distinct: "distinct (map fst d) \<Longrightarrow> distinct (map fst (dict_set k v d))"
  by (simp add: dict_set_keys)

lemma dict_values_by_key:
  "distinct (map fst d) \<Longrightarrow> map snd d = map (\<lambda>k. the (map_of d k)) (map fst d)"
proof (induction d)
  case Nil
  then show ?case by simp
next
  case (Cons kv d)
  have "map (\<lambda>k. the (map_of (kv # d) k)) (map fst d) = map (\<lambda>k. the (map_of d k)) (map fst d)"
    using Cons.prems by (intro map_cong) (auto simp: rev_image_eqI)
  with Cons show ?case by (cases kv) simp
qed

section \<open>Case-insensitive deduplication\<close>

lemma lowered_dict_snoc:
  "lowered_dict lower (xs @ [x]) = dict_set (lower x) x (lowered_dict lower xs)"
  by (simp add: lowered_dict_def)

lemma lowered_dict_keys:
  "map fst (lowered_dict lower xs) = rev (remdups (rev (map lower xs)))"
proof (induction xs rule: rev_induct)
  case Nil
  then show ?case by (simp add: lowered_dict_def)
next
  case (snoc x xs)
  have "set (map fst (lowered_dict lower xs)) = lower ` set xs"
    by (simp add: snoc.IH)
  then show ?case
    by (simp add: lowered_dict_snoc dict_set_keys snoc.IH)
qed

lemma lowered_dict_distinct: "distinct (map fst (lowered_dict lower xs))"
  by (simp add: lowered_dict_keys)

lemma lowered_dict_map_of:
  "map_of (lowered_dict lower xs) k =
     (if k \<in> lower ` set xs then Some (last (filter (\<lambda>x. lower x = k) xs)) else None)"
proof (induction xs rule: rev_induct)
  case Nil
  then show ?case by (simp add: lowered_dict_def)
next
  case (snoc x xs)
  then show ?case
    by (auto simp: lowered_dict_snoc dict_set_map_of)
qed

text \<open>
  C10. The result lists the lowercase classes of the input in the order of their first
  occurrences (\<open>rev (remdups (rev ks))\<close> keeps the first occurrence of each key), one
  element per class, and the element of a class is the last input item of that class,
  with its own casing.
\<close>

theorem remove_case_insensitive_duplicates_spec:
  "remove_case_insensitive_duplicates lower xs =
     map (\<lambda>k. last (filter (\<lambda>x. lower x = k) xs)) (rev (remdups (rev (map lower xs))))
   \<and> map lower (remove_case_insensitive_duplicates lower xs) =
       rev (remdups (rev (map lower xs)))
   \<and> distinct (map lower (remove_case_insensitive_duplicates lower xs))
   \<and> set (map lower (remove_case_insensitive_duplicates lower xs)) = set (map lower xs)"
proof -
  let ?d = "lowered_dict lower xs"
  let ?ks = "rev (remdups (rev (map lower xs)))"
  have res: "remove_case_insensitive_duplicates lower xs = map snd ?d"
    by (simp add: remove_case_insensitive_duplicates_def lowered_dict_def)
  have "map snd ?d = map (\<lambda>k. the (map_of ?d k)) (map fst ?d)"
    by (rule dict_values_by_key) (rule lowered_dict_distinct)
  also have "\<dots> = map (\<lambda>k. the (map_of ?d k)) ?ks"
    by (simp add: lowered_dict_keys)
  also have "\<dots> = map (\<lambda>k. last (filter (\<lambda>x. lower x = k) xs)) ?ks"
    by (intro map_cong) (auto simp: lowered_dict_map_of)
  finally have eq: "remove_case_insensitive_duplicates lower xs =
      map (\<lambda>k. last (filter (\<lambda>x. lower x = k) xs)) ?ks"
    using res by simp
  have cls: "lower (last (filter (\<lambda>x. lower x = k) xs)) = k" if "k \<in> set ?ks" for k
  proof -
    from that have "filter (\<lambda>x. lower x = k) xs \<noteq> []"
      by (auto simp: filter_empty_conv)
    then have "last (filter (\<lambda>x. lower x = k) xs) \<in> set (filter (\<lambda>x. lower x = k) xs)"
      by (rule last_in_set)
    then show ?thesis by simp
  qed
  have "map (\<lambda>k. lower (last (filter (\<lambda>x. lower x = k) xs))) ?ks = ?ks"
    by (rule map_idI) (use cls in blast)
  then have keys: "map lower (remove_case_insensitive_duplicates lower xs) = ?ks"
    unfolding eq by (simp add: o_def)
  show ?thesis
    using eq keys by simp
qed

section \<open>Varint round trip\<close>

lemma low7: "(x::int) AND 0x7F = x mod 128"
  using take_bit_eq_mask [of 7 x] by (simp add: take_bit_eq_mod mask_eq_exp_minus_1)

lemma bit7_clear: "0 \<le> x \<Longrightarrow> x < 128 \<Longrightarrow> (x :: int) AND 0x80 = 0"
proof -
  assume "0 \<le> x" "x < 128"
  then have "\<not> bit x 7" by (simp add: bit_iff_odd)
  then show ?thesis using and_exp_eq_0_iff_not_bit [of x 7] by simp
qed

lemma bit7_set: "0 \<le> x \<Longrightarrow> x < 128 \<Longrightarrow> (x + 128 :: int) AND 0x80 \<noteq> 0"
proof -
  assume "0 \<le> x" "x < 128"
  then have "(x + 128) div 2 ^ 7 = 1" by simp
  then have "bit (x + 128) 7" by (simp add: bit_iff_odd)
  then show ?thesis using and_exp_eq_0_iff_not_bit [of "x + 128" 7] by simp
qed

lemma split7: "(x::int) mod 128 OR push_bit 7 (x div 128) = x"
proof -
  have z: "push_bit 7 (drop_bit 7 x) AND take_bit 7 x = 0"
    by (rule bit_eqI) (simp add: bit_simps)
  have "take_bit 7 x OR push_bit 7 (drop_bit 7 x) = push_bit 7 (drop_bit 7 x) + take_bit 7 x"
    using disjunctive_add_eq_or [OF z] by (simp only: or.commute)
  also have "\<dots> = x" by (rule bits_ident)
  finally show ?thesis by (simp add: take_bit_eq_mod drop_bit_eq_div)
qed

lemma or_push:
  "((a::int) OR push_bit s (x mod 128)) OR push_bit (s + 7) (x div 128) = a OR push_bit s x"
proof -
  have "push_bit (s + 7) (x div 128) = push_bit s (push_bit 7 (x div 128))"
    by (simp add: push_bit_push_bit add.commute)
  then have "push_bit s (x mod 128) OR push_bit (s + 7) (x div 128)
      = push_bit s (x mod 128 OR push_bit 7 (x div 128))"
    by (simp only: push_bit_or)
  also have "\<dots> = push_bit s x" by (simp only: split7)
  finally show ?thesis by (simp add: or.assoc)
qed

lemma uint_low_byte: "n < 256 \<Longrightarrow> uint (of_nat n :: byte) = int n"
  by (simp add: unsigned_of_nat take_bit_nat_eq_self)

lemma varint_loop_more:
  assumes "uint b = v + 128" and "0 \<le> v" and "v < 128"
  shows "varint_loop acc shift \<lparr>unread = b # bs, offset = off\<rparr> =
           varint_loop (acc OR push_bit shift v) (shift + 7) \<lparr>unread = bs, offset = off + 1\<rparr>"
proof -
  have rb: "read_byte \<lparr>unread = b # bs, offset = off\<rparr> =
      Inr (v + 128, \<lparr>unread = bs, offset = off + 1\<rparr>)"
    using assms(1) by (simp add: read_byte_Cons)
  have lo: "(v + 128) AND 0x7F = v" using assms by (simp add: low7)
  have hi: "(v + 128) AND 0x80 \<noteq> 0" using assms(2,3) by (rule bit7_set)
  show ?thesis
    by (subst varint_loop.simps)
       (simp only: rb lo hi Let_def sum.case prod.case if_False)
qed

lemma varint_loop_last:
  assumes "uint b = v" and "0 \<le> v" and "v < 128"
  shows "varint_loop acc shift \<lparr>unread = b # bs, offset = off\<rparr> =
           Inr (acc OR push_bit shift v, \<lparr>unread = bs, offset = off + 1\<rparr>)"
proof -
  have rb: "read_byte \<lparr>unread = b # bs, offset = off\<rparr> =
      Inr (v, \<lparr>unread = bs, offset = off + 1\<rparr>)"
    using assms(1) by (simp add: read_byte_Cons)
  have lo: "v AND 0x7F = v" using assms by (simp add: low7)
  have hi: "v AND 0x80 = 0" using assms(2,3) by (rule bit7_clear)
  show ?thesis
    by (subst varint_loop.simps)
       (simp only: rb lo hi Let_def sum.case prod.case refl if_True)
qed

lemma varint_loop_encode:
  "varint_loop acc shift \<lparr>unread = varint_encode n @ rest, offset = off\<rparr> =
     Inr (acc OR push_bit shift (int n),
          \<lparr>unread = rest, offset = off + length (varint_encode n)\<rparr>)"
proof (induction n arbitrary: acc shift off rule: varint_encode.induct)
  case (1 n)
  show ?case
  proof (cases "n < 128")
    case True
    then have enc: "varint_encode n = [of_nat n]"
      by (simp add: varint_encode.simps)
    have u: "uint (of_nat n :: byte) = int n"
      using True by (simp add: uint_low_byte)
    show ?thesis
      unfolding enc using varint_loop_last [OF u, of acc shift rest off] True by simp
  next
    case False
    then have enc: "varint_encode n = of_nat (n mod 128 + 128) # varint_encode (n div 128)"
      by (subst varint_encode.simps) simp
    have "n mod 128 + 128 < 256" by simp
    then have "uint (of_nat (n mod 128 + 128) :: byte) = int (n mod 128 + 128)"
      by (rule uint_low_byte)
    then have u: "uint (of_nat (n mod 128 + 128) :: byte) = int (n mod 128) + 128"
      by (simp only: of_nat_add of_nat_numeral)
    have step: "varint_loop acc shift
        \<lparr>unread = of_nat (n mod 128 + 128) # (varint_encode (n div 128) @ rest), offset = off\<rparr>
      = varint_loop (acc OR push_bit shift (int (n mod 128))) (shift + 7)
          \<lparr>unread = varint_encode (n div 128) @ rest, offset = off + 1\<rparr>"
      by (rule varint_loop_more [OF u]) simp_all
    have "(acc OR push_bit shift (int (n mod 128))) OR push_bit (shift + 7) (int (n div 128))
        = acc OR push_bit shift (int n)"
      using or_push [of acc shift "int n"] by (simp only: zmod_int zdiv_int of_nat_numeral)
    then show ?thesis
      unfolding enc append_Cons step "1.IH" [OF False] by simp
  qed
qed

lemma bit_length_shift:
  "0 < n div 2 ^ k \<Longrightarrow> bit_length n = bit_length (n div 2 ^ k) + k"
proof (induction k arbitrary: n)
  case 0
  then show ?case by simp
next
  case (Suc k)
  have half: "n div 2 div 2 ^ k = n div 2 ^ Suc k"
    by (simp add: div_mult2_eq)
  with Suc.prems have "0 < n div 2 div 2 ^ k" by simp
  then have "bit_length (n div 2) = bit_length (n div 2 div 2 ^ k) + k"
    by (rule Suc.IH)
  moreover from Suc.prems have "n \<noteq> 0" by (auto intro: ccontr)
  then have "bit_length n = Suc (bit_length (n div 2))"
    by (subst bit_length.simps) simp
  ultimately show ?case by (simp add: half)
qed

lemma bit_length_bound: "n < 2 ^ k \<Longrightarrow> bit_length n \<le> k"
proof (induction k arbitrary: n)
  case 0
  then show ?case by (simp add: bit_length.simps)
next
  case (Suc k)
  then have "n div 2 < 2 ^ k" by simp
  then have "bit_length (n div 2) \<le> k" by (rule Suc.IH)
  then show ?case by (subst bit_length.simps) simp
qed

lemma bit_length_pos: "0 < n \<Longrightarrow> 0 < bit_length n"
  by (subst bit_length.simps) simp

lemma varint_encode_length: "length (varint_encode n) = max 1 ((bit_length n + 6) div 7)"
proof (induction n rule: varint_encode.induct)
  case (1 n)
  show ?case
  proof (cases "n < 128")
    case True
    then have "bit_length n \<le> 7" using bit_length_bound [of n 7] by simp
    then have "(bit_length n + 6) div 7 \<le> 1" by simp
    with True show ?thesis by (subst varint_encode.simps) (simp add: max_def)
  next
    case False
    then have pos: "0 < n div 2 ^ 7" by (simp add: div_greater_zero_iff)
    then have "bit_length n = bit_length (n div 128) + 7"
      using bit_length_shift [of n 7] by simp
    moreover have "0 < bit_length (n div 128)"
      using pos by (intro bit_length_pos) simp
    ultimately have "max 1 ((bit_length n + 6) div 7)
        = Suc (max 1 ((bit_length (n div 128) + 6) div 7))"
      by (simp add: max_def) arith
    then show ?thesis
      using False "1.IH" [OF False] by (subst varint_encode.simps) simp
  qed
qed

text \<open>
  C5 as stated fails at \<open>n = 0\<close>: the encoding of 0 is the single byte \<open>0x00\<close>, the
  decoder returns 0 after consuming that one byte, and \<open>ceil(bitlength(0)/7)\<close> is 0.
\<close>

theorem varint_zero_consumes_one_byte:
  "varint_encode 0 = [0x00]
   \<and> parse_varint (BytesIO (varint_encode 0)) = Inr (0, \<lparr>unread = [], offset = 1\<rparr>)
   \<and> (bit_length 0 + 6) div 7 \<noteq> 1"
proof -
  have enc: "varint_encode 0 = [0x00]" by (simp add: varint_encode.simps)
  have "parse_varint (BytesIO [0x00]) = Inr (0, \<lparr>unread = [], offset = 1\<rparr>)"
    unfolding parse_varint_def BytesIO_def
    using varint_loop_last [of "0x00" 0 0 0 "[]" 0] by simp
  then show ?thesis by (simp add: enc bit_length.simps)
qed

text \<open>
  C5, amended. For every \<open>n < 2^35\<close> the decoder returns \<open>n\<close> on the encoding of
  \<open>n\<close>, leaves what follows it unread, and advances by the length of the encoding,
  which is \<open>ceil(bitlength(n)/7)\<close> bytes, but one byte for \<open>n = 0\<close>.
\<close>

theorem varint_round_trip:
  assumes "n < 2 ^ 35"
  shows "parse_varint \<lparr>unread = varint_encode n @ rest, offset = off\<rparr> =
           Inr (int n, \<lparr>unread = rest, offset = off + max 1 ((bit_length n + 6) div 7)\<rparr>)
         \<and> length (varint_encode n) = max 1 ((bit_length n + 6) div 7)"
  by (simp add: parse_varint_def varint_loop_encode varint_encode_length)

theorem varint_round_trip_witness:
  "(129::nat) < 2 ^ 35
   \<and> varint_encode 129 = [0x81, 0x01]
   \<and> parse_varint \<lparr>unread = [0x81, 0x01] @ [0xFF], offset = 0\<rparr> =
       Inr (129, \<lparr>unread = [0xFF], offset = 2\<rparr>)"
proof -
  have h: "(129::nat) < 2 ^ 35" by simp
  have enc: "varint_encode 129 = [0x81, 0x01]"
    by (simp add: varint_encode.simps)
  have bl: "bit_length 129 = 8"
    by (simp add: bit_length.simps)
  show ?thesis
    using h varint_round_trip [OF h, of "[0xFF]" 0] by (simp add: enc bl)
qed

section \<open>Map keys\<close>

lemma dict_set_members:
  "(a, b) \<in> set (dict_set k v d) \<Longrightarrow> (a, b) \<in> set d \<or> (a = k \<and> b = v)"
  by (induction d) (auto split: if_splits)

lemma str_keys_dict_set:
  "str_keys (PDict d) \<Longrightarrow> str_keys v \<Longrightarrow> str_keys (PDict (dict_set (PStr k) v d))"
  by (auto dest!: dict_set_members)

lemma parse_str_keys:
  "parse_dag_cbor_object s = Inr (v, s') \<Longrightarrow> str_keys v"
  "parse_array_items n t vs = Inr (r, t') \<Longrightarrow> str_keys (PList vs) \<Longrightarrow> str_keys (PList r)"
  "parse_map_entries m u d = Inr (q, u') \<Longrightarrow> str_keys (PDict d) \<Longrightarrow> str_keys (PDict q)"
proof (induction s and n t vs and m u d arbitrary: v s' and r t' and q u'
       rule: parse_dag_cbor_object_parse_array_items_parse_map_entries.induct)
  case (1 s)
  note eq = "1.prems" [unfolded parse_dag_cbor_object.simps [of s]]
  from eq obtain major_type info s1 where
    head: "parse_cbor_head s = Inr ((major_type, info), s1)"
    by (auto split: sum.splits)
  have info: "str_keys info"
    using head
    by (auto simp: parse_cbor_head_def Let_def
             split: sum.splits option.splits if_splits prod.splits)
  show ?case
  proof (cases major_type)
    case ARRAY
    then show ?thesis
      using eq head "1.IH"(1) [OF head refl refl ARRAY]
      by (auto split: sum.splits)
  next
    case MAP
    then show ?thesis
      using eq head "1.IH"(2) [OF head refl refl MAP]
      by (auto split: sum.splits)
  next
    case TAG
    then show ?thesis
      using eq head
      by (auto split: sum.splits if_splits pyval.splits)
  qed (use eq head info in \<open>auto split: sum.splits if_splits prod.splits option.splits\<close>)
next
  case (2 n s acc)
  show ?case
  proof (cases "n = 0")
    case True
    show ?thesis
      using "2.prems" unfolding parse_array_items.simps [of n s acc]
      using True by simp
  next
    case False
    from "2.prems"(1) [unfolded parse_array_items.simps [of n s acc]] False obtain v s1 where
      obj: "parse_dag_cbor_object s = Inr (v, s1)" and
      rest: "parse_array_items (n - 1) s1 (acc @ [v]) = Inr (r, t')"
      by (auto split: sum.splits)
    have "str_keys v" using "2.IH"(1) [OF False obj] .
    with "2.prems"(2) have "str_keys (PList (acc @ [v]))" by auto
    then show ?thesis using "2.IH"(2) [OF False obj refl rest] by simp
  qed
next
  case (3 n s acc)
  show ?case
  proof (cases "n = 0")
    case True
    show ?thesis
      using "3.prems" unfolding parse_map_entries.simps [of n s acc]
      using True by simp
  next
    case False
    from "3.prems"(1) [unfolded parse_map_entries.simps [of n s acc]] False obtain k s1 v s2 where
      key: "parse_dag_cbor_object s = Inr (PStr k, s1)" and
      val: "parse_dag_cbor_object s1 = Inr (v, s2)" and
      rest: "parse_map_entries (n - 1) s2 (dict_set (PStr k) v acc) = Inr (q, u')"
      by (auto split: sum.splits pyval.splits)
    have "str_keys v" using "3.IH"(2) [OF False key refl refl val] .
    with "3.prems"(2) have "str_keys (PDict (dict_set (PStr k) v acc))"
      by (rule str_keys_dict_set [rotated -1, rotated])
    then show ?thesis using "3.IH"(3) [OF False key refl refl val refl rest] by simp
  qed
qed

lemma head_info_int:
  assumes "parse_cbor_head s = Inr ((major_type, info), s1)" and "major_type \<noteq> FLOAT"
  shows "\<exists>n. info = PInt n"
  using assms
  by (auto simp: parse_cbor_head_def Let_def
           split: sum.splits option.splits if_splits prod.splits)

text \<open>Rules that evaluate the decoders on a concrete stream.\<close>

lemmas decoder_eval =
  parse_dag_cbor_object.simps parse_array_items.simps parse_map_entries.simps
  parse_cbor_head_def read_byte_def stream_read_def read_bytes_def MajorType_of_def
  BYTE_LENGTHS_def
  int_info_def from_bytes_big_def BytesIO_def Let_def drop_bit_eq_div is_cont_def
  startswith_def endswith_def str_lit_def

text \<open>
  A key that decodes to anything but a \<open>str\<close> makes the entry loop raise
  \<open>ValueError("DAG-CBOR only accepts strings as map keys")\<close>, whatever entries came
  before.
\<close>

lemma non_str_key_raises:
  assumes "n \<noteq> 0" and "parse_dag_cbor_object s = Inr (key, s1)" and "\<forall>k. key \<noteq> PStr k"
  shows "parse_map_entries n s entries_so_far =
           Inl (ValueError ''DAG-CBOR only accepts strings as map keys'')"
  using assms by (subst parse_map_entries.simps) (auto split: pyval.splits)

text \<open>
  C6. A tag-42 link is not a text string, but the decoder returns it as a \<open>str\<close>, and
  the check of the map loop is \<open>type(key) != str\<close>. So the one-entry map whose key is
  a link is decoded, with the CID string of the link as its key, where a map whose
  key is an integer or a byte string raises the error.
\<close>

theorem link_key_is_accepted:
  "parse_cbor_head \<lparr>unread = drop 1 link_keyed_map, offset = 1\<rparr> =
     Inr ((TAG, PInt 42), \<lparr>unread = drop 3 link_keyed_map, offset = 3\<rparr>)
   \<and> parse_dag_cbor_object (BytesIO link_keyed_map) =
       Inr (PDict [(PStr (cid_string ([0x01, 0x71, 0x12, 0x20] @ empty_map_digest)), PInt 1)],
            \<lparr>unread = [], offset = 43\<rparr>)
   \<and> parse_dag_cbor_object (BytesIO [0xA1, 0x01, 0x02]) =
       Inl (ValueError ''DAG-CBOR only accepts strings as map keys'')
   \<and> parse_dag_cbor_object (BytesIO [0xA1, 0x41, 0x61, 0x02]) =
       Inl (ValueError ''DAG-CBOR only accepts strings as map keys'')"
  by (simp add: decoder_eval link_keyed_map_def empty_map_digest_def)

section \<open>Properties of SHA-256\<close>

text \<open>The padded message is a whole number of 64-byte blocks.\<close>

lemma len_bytes_length: "length (len_bytes n) = 8"
  by (simp add: len_bytes_def Let_def)

lemma sha_pad_zeros:
  assumes "r < 64"
  shows "(r + 9 + (119 - r) mod 64) mod 64 = (0::nat)"
proof (cases "r \<le> 55")
  case True
  then have "119 - r = 55 - r + 1 * 64" by simp
  then have "(119 - r) mod 64 = (55 - r) mod 64"
    by (simp only: mod_mult_self1)
  then have "(119 - r) mod 64 = 55 - r" by simp
  with True show ?thesis by simp
next
  case False
  with assms have "(119 - r) mod 64 = 119 - r" by simp
  with False assms have "r + 9 + (119 - r) mod 64 = 128" by simp
  then show ?thesis by simp
qed

lemma sha_pad_length: "length (sha_pad m) mod 64 = 0"
proof -
  define r where "r = length m mod 64"
  have r: "r < 64" by (simp add: r_def)
  have "length (sha_pad m) = length m + 9 + (119 - r) mod 64"
    by (simp add: sha_pad_def len_bytes_length r_def)
  then have "length (sha_pad m) mod 64 = (r + 9 + (119 - r) mod 64) mod 64"
    unfolding r_def by (metis mod_add_left_eq)
  with sha_pad_zeros [OF r] show ?thesis by simp
qed

lemma sha_round_length: "length (sha_round st kw) = 8"
  by (simp add: sha_round_def Let_def)

lemma sha_rounds_length: "length st = 8 \<Longrightarrow> length (foldl sha_round st kws) = 8"
  by (induction kws arbitrary: st) (simp_all add: sha_round_length)

lemma sha_block_length: "length hs = 8 \<Longrightarrow> length (sha_block hs blk) = 8"
  by (simp add: sha_block_def Let_def sha_rounds_length)

lemma sha_blocks_length: "length hs = 8 \<Longrightarrow> length (foldl sha_block hs blks) = 8"
  by (induction blks arbitrary: hs) (simp_all add: sha_block_length)

lemma concat_word_bytes_length: "length (concat (map word_bytes ws)) = 4 * length ws"
  by (induction ws) (simp_all add: word_bytes_def)

lemma sha256_length: "length (sha256 m) = 32"
  by (simp add: sha256_def concat_word_bytes_length sha_blocks_length sha_h0_def)

section \<open>Properties of the value decoder and the container parser\<close>

lemma parse_shorter:
  "parse_dag_cbor_object s = Inr (v, s') \<Longrightarrow> length (unread s') < length (unread s)"
  "parse_array_items n t vs = Inr (r, t') \<Longrightarrow> length (unread t') \<le> length (unread t)"
  "parse_map_entries m u d = Inr (q, u') \<Longrightarrow> length (unread u') \<le> length (unread u)"
proof (induction s and n t vs and m u d arbitrary: v s' and r t' and q u'
       rule: parse_dag_cbor_object_parse_array_items_parse_map_entries.induct)
  case (1 s)
  note eq = "1.prems" [unfolded parse_dag_cbor_object.simps [of s]]
  from eq obtain major_type info s1 where
    head: "parse_cbor_head s = Inr ((major_type, info), s1)"
    by (auto split: sum.splits)
  have lt: "length (unread s1) < length (unread s)"
    using head by (rule parse_cbor_head_shorter)
  have "length (unread s') \<le> length (unread s1)"
  proof (cases major_type)
    case ARRAY
    then show ?thesis
      using eq head "1.IH"(1) [OF head refl refl ARRAY]
      by (auto split: sum.splits)
  next
    case MAP
    then show ?thesis
      using eq head "1.IH"(2) [OF head refl refl MAP]
      by (auto split: sum.splits)
  next
    case TAG
    then show ?thesis
      using eq head "1.IH"(3) [OF head refl refl TAG]
      by (fastforce split: sum.splits if_splits pyval.splits)
  qed (use eq head in \<open>auto split: sum.splits if_splits prod.splits option.splits
         dest: stream_read_le\<close>)
  with lt show ?case by simp
next
  case (2 n s acc)
  show ?case
  proof (cases "n = 0")
    case True
    show ?thesis
      using "2.prems" unfolding parse_array_items.simps [of n s acc]
      using True by simp
  next
    case False
    from "2.prems" [unfolded parse_array_items.simps [of n s acc]] False obtain v s1 where
      obj: "parse_dag_cbor_object s = Inr (v, s1)" and
      rest: "parse_array_items (n - 1) s1 (acc @ [v]) = Inr (r, t')"
      by (auto split: sum.splits)
    have "length (unread s1) < length (unread s)"
      using "2.IH"(1) [OF False obj] .
    moreover have "length (unread t') \<le> length (unread s1)"
      using "2.IH"(2) [OF False obj refl rest] .
    ultimately show ?thesis by simp
  qed
next
  case (3 n s acc)
  show ?case
  proof (cases "n = 0")
    case True
    show ?thesis
      using "3.prems" unfolding parse_map_entries.simps [of n s acc]
      using True by simp
  next
    case False
    from "3.prems" [unfolded parse_map_entries.simps [of n s acc]] False obtain k s1 v s2 where
      key: "parse_dag_cbor_object s = Inr (PStr k, s1)" and
      val: "parse_dag_cbor_object s1 = Inr (v, s2)" and
      rest: "parse_map_entries (n - 1) s2 (dict_set (PStr k) v acc) = Inr (q, u')"
      by (auto split: sum.splits pyval.splits)
    have "length (unread s1) < length (unread s)"
      using "3.IH"(1) [OF False key] .
    moreover have "length (unread s2) < length (unread s1)"
      using "3.IH"(2) [OF False key refl refl val] .
    moreover have "length (unread u') \<le> length (unread s2)"
      using "3.IH"(3) [OF False key refl refl val refl rest] .
    ultimately show ?thesis by simp
  qed
qed

lemma parse_empty_fails: "parse_dag_cbor_object (BytesIO []) = Inl IndexError"
  by (simp add: parse_dag_cbor_object.simps parse_cbor_head_def read_byte_Nil BytesIO_def)

lemma blocks_after_continue:
  "blocks_after len k s nodes = Some (t, nodes') \<Longrightarrow>
     parse_car_blocks len s nodes = parse_car_blocks len t nodes'"
proof (induction k arbitrary: s nodes)
  case 0
  then show ?case by simp
next
  case (Suc k)
  from Suc.prems obtain cid block s' where
    go: "int (offset s) \<noteq> len" and
    blk: "parse_car_block s = Inr ((cid, block), s')" and
    rest: "blocks_after len k s' (dict_set cid block nodes) = Some (t, nodes')"
    by (auto split: if_splits sum.splits)
  have "parse_car_blocks len s nodes = parse_car_blocks len s' (dict_set cid block nodes)"
    using go blk by (subst parse_car_blocks.simps) simp
  with Suc.IH [OF rest] show ?case by simp
qed

lemma parse_car_block_digest:
  assumes "parse_varint t = Inr (block_len, t1)"
    and "stream_read 36 t1 = Inr (cid_raw, t2)"
    and "startswith cid_raw [0x01, 0x71, 0x12, 0x20]"
    and "stream_read (block_len - 36) t2 = Inr (block_data, t3)"
    and "sha256 block_data \<noteq> drop (length cid_raw - 32) cid_raw"
  shows "parse_car_block t = Inl (AssertionError BlockDigest)"
proof -
  have "\<not> endswith cid_raw (sha256 block_data)"
    using assms(5) by (auto simp: endswith_def sha256_length)
  then show ?thesis
    using assms(1-4) by (simp add: parse_car_block_def Let_def)
qed

text \<open>
  C1. Take a container whose header is accepted, and suppose the loop has read and
  stored \<open>k\<close> blocks and is not at the end. If the next block has the DAG-CBOR prefix
  and the SHA-256 of its payload differs from the last 32 bytes of its CID layout, the
  whole parse raises the digest assertion: the caller gets the error and no mapping,
  whatever was stored for the \<open>k\<close> earlier blocks.
\<close>

theorem digest_mismatch_is_fatal:
  assumes "parse_varint s = Inr (header_len, s1)"
    and "parse_dag_cbor_object s1 = Inr (car_header, s2)"
    and "int (offset s2) - int (offset s1) = header_len"
    and "car_header_root car_header = Inr root_value"
    and "blocks_after len k s2 [] = Some (t, nodes)"
    and "int (offset t) \<noteq> len"
    and "parse_varint t = Inr (block_len, t1)"
    and "stream_read 36 t1 = Inr (cid_raw, t2)"
    and "startswith cid_raw [0x01, 0x71, 0x12, 0x20]"
    and "stream_read (block_len - 36) t2 = Inr (block_data, t3)"
    and "sha256 block_data \<noteq> drop (length cid_raw - 32) cid_raw"
  shows "parse_car_block t = Inl (AssertionError BlockDigest)
         \<and> parse_car_blocks len t nodes = Inl (AssertionError BlockDigest)
         \<and> parse_car s len = Inl (AssertionError BlockDigest)"
proof -
  have blk: "parse_car_block t = Inl (AssertionError BlockDigest)"
    using assms(7-11) by (rule parse_car_block_digest)
  have loop: "parse_car_blocks len t nodes = Inl (AssertionError BlockDigest)"
    using assms(6) blk by (subst parse_car_blocks.simps) simp
  have "parse_car_blocks len s2 [] = Inl (AssertionError BlockDigest)"
    using blocks_after_continue [OF assms(5)] loop by simp
  then have "parse_car s len = Inl (AssertionError BlockDigest)"
    using assms(1-4) by (simp add: parse_car_def Let_def)
  with blk loop show ?thesis by simp
qed

subsection \<open>Facts about the example containers\<close>

lemma sha256_empty:
  "sha256 [] =
     [0xE3, 0xB0, 0xC4, 0x42, 0x98, 0xFC, 0x1C, 0x14, 0x9A, 0xFB, 0xF4, 0xC8, 0x99, 0x6F, 0xB9, 0x24,
      0x27, 0xAE, 0x41, 0xE4, 0x64, 0x9B, 0x93, 0x4C, 0xA4, 0x95, 0x99, 0x1B, 0x78, 0x52, 0xB8, 0x55]"
  by code_simp

text \<open>A message of 56 bytes, the shortest whose padding spills into a second block.\<close>

lemma sha256_two_blocks:
  "sha256 (replicate 56 0x61) =
     [0xB3, 0x54, 0x39, 0xA4, 0xAC, 0x6F, 0x09, 0x48, 0xB6, 0xD6, 0xF9, 0xE3, 0xC6, 0xAF, 0x0F, 0x5F,
      0x59, 0x0C, 0xE2, 0x0F, 0x1B, 0xDE, 0x70, 0x90, 0xEF, 0x79, 0x70, 0x68, 0x6E, 0xC6, 0x73, 0x8A]"
  by code_simp

lemma sha256_empty_map:
  "sha256 [0xA0] =
     [0xC1, 0x9A, 0x79, 0x7F, 0xA1, 0xFD, 0x59, 0x0C, 0xD2, 0xE5, 0xB4, 0x2D, 0x1C, 0xF5, 0xF2, 0x46,
      0xE2, 0x9B, 0x91, 0x68, 0x4E, 0x2F, 0x87, 0x40, 0x4B, 0x81, 0xDC, 0x34, 0x5C, 0x7A, 0x56, 0xA0]"
  by code_simp

lemmas car_eval =
  decoder_eval parse_varint_def varint_loop.simps parse_car_block_def parse_car_blocks.simps
  parse_car_def car_header_root_def py_eq_int_def py_len_def py_getitem0_def dict_get_def
  dict_item_def

lemmas example_bytes =
  example_header_def example_root_def good_block_def bad_digest_block_def raw_block_def
  short_block_def empty_map_digest_def empty_digest_def zero_digest_def

lemma example_header_parses:
  "parse_varint \<lparr>unread = example_header @ rest, offset = 0\<rparr> =
     Inr (58, \<lparr>unread = drop 1 example_header @ rest, offset = 1\<rparr>)"
  "parse_dag_cbor_object \<lparr>unread = drop 1 example_header @ rest, offset = 1\<rparr> =
     Inr (PDict [(PStr (str_lit ''roots''), PList [example_root]),
                 (PStr (str_lit ''version''), PInt 1)],
          \<lparr>unread = rest, offset = 59\<rparr>)"
  "car_header_root (PDict [(PStr (str_lit ''roots''), PList [example_root]),
                           (PStr (str_lit ''version''), PInt 1)]) = Inr example_root"
  by (simp_all add: car_eval example_bytes)

lemma good_block_parses:
  "parse_car_block \<lparr>unread = good_block @ rest, offset = off\<rparr> =
     Inr ((cid_string ([0x01, 0x71, 0x12, 0x20] @ empty_map_digest), PDict []),
          \<lparr>unread = rest, offset = off + 38\<rparr>)"
  using sha256_empty_map by (simp add: car_eval example_bytes)

theorem digest_mismatch_is_fatal_witness:
  "sha256 [0xA0] \<noteq> zero_digest
   \<and> blocks_after 135 (Suc 0) \<lparr>unread = good_block @ bad_digest_block, offset = 59\<rparr> [] =
       Some (\<lparr>unread = bad_digest_block, offset = 97\<rparr>,
             [(cid_string ([0x01, 0x71, 0x12, 0x20] @ empty_map_digest), PDict [])])
   \<and> parse_car (BytesIO (example_header @ good_block @ bad_digest_block)) 135 =
       Inl (AssertionError BlockDigest)"
proof -
  let ?s = "BytesIO (example_header @ good_block @ bad_digest_block)"
  let ?s1 = "\<lparr>unread = drop 1 example_header @ (good_block @ bad_digest_block), offset = 1\<rparr>"
  let ?s2 = "\<lparr>unread = good_block @ bad_digest_block, offset = 59\<rparr>"
  let ?h = "PDict [(PStr (str_lit ''roots''), PList [example_root]),
                   (PStr (str_lit ''version''), PInt 1)]"
  let ?t = "\<lparr>unread = bad_digest_block, offset = 97\<rparr>"
  let ?nodes = "[(cid_string ([0x01, 0x71, 0x12, 0x20] @ empty_map_digest), PDict [])]"
  let ?t1 = "\<lparr>unread = drop 1 bad_digest_block, offset = 98\<rparr>"
  let ?cid_raw = "[0x01, 0x71, 0x12, 0x20] @ zero_digest"
  let ?t2 = "\<lparr>unread = [0xA0 :: byte], offset = 134\<rparr>"
  let ?t3 = "\<lparr>unread = [] :: byte list, offset = 135\<rparr>"
  have h1: "parse_varint ?s = Inr (58, ?s1)"
    using example_header_parses(1) [of "good_block @ bad_digest_block"]
    by (simp add: BytesIO_def)
  have h2: "parse_dag_cbor_object ?s1 = Inr (?h, ?s2)"
    by (rule example_header_parses(2))
  have h3: "int (offset ?s2) - int (offset ?s1) = 58" by simp
  have h4: "car_header_root ?h = Inr example_root"
    by (rule example_header_parses(3))
  have h5: "blocks_after 135 (Suc 0) ?s2 [] = Some (?t, ?nodes)"
    by (simp add: good_block_parses)
  have h6: "int (offset ?t) \<noteq> 135" by simp
  have h7: "parse_varint ?t = Inr (37, ?t1)"
    by (simp add: car_eval bad_digest_block_def zero_digest_def)
  have h8: "stream_read 36 ?t1 = Inr (?cid_raw, ?t2)"
    by (simp add: stream_read_def read_bytes_def bad_digest_block_def zero_digest_def)
  have h9: "startswith ?cid_raw [0x01, 0x71, 0x12, 0x20]"
    by (simp add: startswith_def)
  have h10: "stream_read (37 - 36) ?t2 = Inr ([0xA0], ?t3)"
    by (simp add: stream_read_def read_bytes_def)
  have ne: "sha256 [0xA0] \<noteq> zero_digest"
    by (simp add: sha256_empty_map zero_digest_def)
  then have h11: "sha256 [0xA0] \<noteq> drop (length ?cid_raw - 32) ?cid_raw"
    by (simp add: zero_digest_def)
  have "parse_car_block ?t = Inl (AssertionError BlockDigest)
        \<and> parse_car_blocks 135 ?t ?nodes = Inl (AssertionError BlockDigest)
        \<and> parse_car ?s 135 = Inl (AssertionError BlockDigest)"
    by (rule digest_mismatch_is_fatal [OF h1 h2 h3 h4 h5 h6 h7 h8 h9 h10 h11])
  with ne h5 show ?thesis by blast
qed

lemma parse_car_example_header:
  "parse_car (BytesIO (example_header @ rest)) len =
     (case parse_car_blocks len \<lparr>unread = rest, offset = 59\<rparr> [] of
        Inl e \<Rightarrow> Inl e
      | Inr nodes \<Rightarrow> Inr (example_root, nodes))"
  apply (simp only: parse_car_def BytesIO_def example_header_parses Let_def sum.case prod.case)
  apply (simp add: example_header_parses(3))
  done

text \<open>
  C2 as stated fails: a container block whose CID layout carries the raw / SHA-256
  prefix \<open>01 55 12 20\<close> is rejected by the prefix assertion of \<open>parse_car\<close>, even
  though its digest is the SHA-256 of its payload.
\<close>

theorem raw_block_is_rejected:
  "startswith (take 36 (drop 1 raw_block)) [0x01, 0x55, 0x12, 0x20]
   \<and> drop 4 (take 36 (drop 1 raw_block)) = sha256 (drop 37 raw_block)
   \<and> parse_car (BytesIO (example_header @ raw_block)) 97 = Inl (AssertionError BlockPrefix)"
proof -
  have "parse_car_block \<lparr>unread = raw_block, offset = 59\<rparr> = Inl (AssertionError BlockPrefix)"
    by (simp add: car_eval raw_block_def empty_map_digest_def)
  then have "parse_car_blocks 97 \<lparr>unread = raw_block, offset = 59\<rparr> [] =
      Inl (AssertionError BlockPrefix)"
    by (subst parse_car_blocks.simps) simp
  then have "parse_car (BytesIO (example_header @ raw_block)) 97 = Inl (AssertionError BlockPrefix)"
    by (simp add: parse_car_example_header)
  then show ?thesis
    by (simp add: startswith_def raw_block_def sha256_empty_map empty_map_digest_def)
qed

text \<open>
  C2, amended. There are two checks, not one. An embedded link (tag 42 around a
  37-byte string) is accepted exactly when the string starts with \<open>00 01 71 12 20\<close>
  (DAG-CBOR) or \<open>00 01 55 12 20\<close> (raw). A container block is accepted only when its
  CID layout starts with \<open>01 71 12 20\<close> (DAG-CBOR): any other start, the raw prefix
  included, raises the prefix assertion.
\<close>

theorem cid_prefix_checks:
  "(parse_cbor_head s = Inr ((TAG, PInt 42), s1)
      \<and> parse_dag_cbor_object s1 = Inr (PBytes bs, s2) \<and> length bs = 37
    \<longrightarrow> parse_dag_cbor_object s =
          (if startswith bs [0x00, 0x01, 0x71, 0x12, 0x20]
              \<or> startswith bs [0x00, 0x01, 0x55, 0x12, 0x20]
           then Inr (PStr (cid_string (drop 1 bs)), s2)
           else Inl (AssertionError TagPrefix)))
   \<and> (parse_varint t = Inr (block_len, t1) \<and> stream_read 36 t1 = Inr (cid_raw, t2)
        \<and> \<not> startswith cid_raw [0x01, 0x71, 0x12, 0x20]
      \<longrightarrow> parse_car_block t = Inl (AssertionError BlockPrefix))"
proof -
  have link: "parse_dag_cbor_object s =
      (if startswith bs [0x00, 0x01, 0x71, 0x12, 0x20]
          \<or> startswith bs [0x00, 0x01, 0x55, 0x12, 0x20]
       then Inr (PStr (cid_string (drop 1 bs)), s2)
       else Inl (AssertionError TagPrefix))"
    if "parse_cbor_head s = Inr ((TAG, PInt 42), s1)"
      and "parse_dag_cbor_object s1 = Inr (PBytes bs, s2)" and "length bs = 37"
    using that by (subst parse_dag_cbor_object.simps) simp
  have block: "parse_car_block t = Inl (AssertionError BlockPrefix)"
    if "parse_varint t = Inr (block_len, t1)" and "stream_read 36 t1 = Inr (cid_raw, t2)"
      and "\<not> startswith cid_raw [0x01, 0x71, 0x12, 0x20]"
    using that by (simp add: parse_car_block_def Let_def)
  from link block show ?thesis by blast
qed

theorem cid_prefix_checks_witness:
  "parse_dag_cbor_object (BytesIO ([0xD8, 0x2A, 0x58, 0x25, 0x00, 0x01, 0x55, 0x12, 0x20] @ zero_digest)) =
     Inr (PStr (cid_string ([0x01, 0x55, 0x12, 0x20] @ zero_digest)),
          \<lparr>unread = [], offset = 41\<rparr>)
   \<and> parse_car_block (BytesIO raw_block) = Inl (AssertionError BlockPrefix)"
proof -
  let ?bs = "[0x00, 0x01, 0x55, 0x12, 0x20] @ zero_digest"
  let ?s = "BytesIO ([0xD8, 0x2A, 0x58, 0x25, 0x00, 0x01, 0x55, 0x12, 0x20] @ zero_digest)"
  let ?s1 = "\<lparr>unread = [0x58, 0x25, 0x00, 0x01, 0x55, 0x12, 0x20] @ zero_digest, offset = 2\<rparr>"
  let ?s2 = "\<lparr>unread = [] :: byte list, offset = 41\<rparr>"
  let ?t1 = "\<lparr>unread = drop 1 raw_block, offset = 1\<rparr>"
  let ?cid_raw = "[0x01, 0x55, 0x12, 0x20] @ empty_map_digest"
  let ?t2 = "\<lparr>unread = [0xA0 :: byte], offset = 37\<rparr>"
  have a1: "parse_cbor_head ?s = Inr ((TAG, PInt 42), ?s1)"
    by (simp add: decoder_eval)
  have a2: "parse_dag_cbor_object ?s1 = Inr (PBytes ?bs, ?s2)"
    by (simp add: decoder_eval zero_digest_def)
  have a3: "length ?bs = 37" by (simp add: zero_digest_def)
  have b1: "parse_varint (BytesIO raw_block) = Inr (37, ?t1)"
    by (simp add: car_eval raw_block_def empty_map_digest_def)
  have b2: "stream_read 36 ?t1 = Inr (?cid_raw, ?t2)"
    by (simp add: stream_read_def read_bytes_def raw_block_def empty_map_digest_def)
  have b3: "\<not> startswith ?cid_raw [0x01, 0x71, 0x12, 0x20]"
    by (simp add: startswith_def)
  show ?thesis
    using cid_prefix_checks [of ?s ?s1 ?bs ?s2 "BytesIO raw_block" 37 ?t1 ?cid_raw ?t2]
      a1 a2 a3 b1 b2 b3
    by (simp add: zero_digest_def startswith_def)
qed

subsection \<open>The header checks\<close>

lemma py_eq_int_one:
  "py_eq_int x 1 \<longleftrightarrow> x = PInt 1 \<or> x = PBool True \<or> x = PFloat (Finite 1)"
  by (cases x) (auto simp: py_eq_int_def split: pyfloat.splits)

lemma length_one_iff: "length xs = Suc 0 \<longleftrightarrow> (\<exists>x. xs = [x])"
  by (cases xs) auto

lemma str_keyed_getitem0:
  assumes "str_keys (PDict d)"
  shows "py_getitem0 (PDict d) = Inl KeyError"
proof -
  have "\<not> py_eq_int (fst kv) 0" if "kv \<in> set d" for kv
    using assms that by (auto simp: py_eq_int_def split: pyval.splits)
  then have "find (\<lambda>kv. py_eq_int (fst kv) 0) d = None"
    by (auto simp: find_None_iff)
  then show ?thesis by (simp add: py_getitem0_def)
qed

text \<open>
  C7. The header of \<open>loose_header\<close> has no version equal to the integer 1 and no roots
  sequence, yet \<open>parse_car\<close> accepts it and returns the character \<open>"a"\<close> as root: the
  assertions compare with \<open>==\<close> and \<open>len\<close> without looking at the types, and in Python
  \<open>True == 1\<close> holds and \<open>len\<close> of a one-character text is 1.
\<close>

theorem loose_header_is_accepted:
  "parse_dag_cbor_object \<lparr>unread = drop 1 loose_header, offset = 1\<rparr> =
     Inr (PDict [(PStr (str_lit ''roots''), PStr (str_lit ''a'')),
                 (PStr (str_lit ''version''), PBool True)],
          \<lparr>unread = [], offset = 19\<rparr>)
   \<and> parse_car (BytesIO loose_header) 19 = Inr (PStr (str_lit ''a''), [])"
  by (simp add: car_eval loose_header_def)

text \<open>
  The headers the two assertions do reject. Let the header decode to a map with the
  declared length. Unless its version is the integer 1, \<open>True\<close> or the float 1.0 and its
  roots is a list, a text or a byte string of length exactly 1, the header checks raise
  an error (the version or roots assertion, \<open>TypeError\<close> for roots without a length,
  \<open>KeyError\<close> for roots that is a one-entry map), and \<open>parse_car\<close> raises that error
  for every expected length: no block is read and no mapping is returned.
\<close>

lemma header_checks_reject:
  assumes "parse_varint s = Inr (header_len, s1)"
    and "parse_dag_cbor_object s1 = Inr (PDict h, s2)"
    and "int (offset s2) - int (offset s1) = header_len"
    and "\<not> ((dict_get h ''version'' = PInt 1 \<or> dict_get h ''version'' = PBool True
              \<or> dict_get h ''version'' = PFloat (Finite 1))
            \<and> (\<exists>x. map_of h (PStr (str_lit ''roots'')) = Some x
                   \<and> ((\<exists>v. x = PList [v]) \<or> (\<exists>c. x = PStr [c]) \<or> (\<exists>b. x = PBytes [b]))))"
  shows "\<exists>e. (e = AssertionError HeaderVersion \<or> e = AssertionError HeaderRoots
               \<or> e = TypeError \<or> e = KeyError)
             \<and> car_header_root (PDict h) = Inl e
             \<and> (\<forall>len. parse_car s len = Inl e)"
proof -
  have keys: "str_keys (PDict h)"
    using assms(2) by (rule parse_str_keys(1))
  have "\<exists>e. (e = AssertionError HeaderVersion \<or> e = AssertionError HeaderRoots
               \<or> e = TypeError \<or> e = KeyError)
             \<and> car_header_root (PDict h) = Inl e"
  proof (cases "py_eq_int (dict_get h ''version'') 1")
    case False
    then show ?thesis by (simp add: car_header_root_def)
  next
    case True
    with assms(4) have roots:
      "\<not> (\<exists>x. map_of h (PStr (str_lit ''roots'')) = Some x
             \<and> ((\<exists>v. x = PList [v]) \<or> (\<exists>c. x = PStr [c]) \<or> (\<exists>b. x = PBytes [b])))"
      unfolding py_eq_int_one by blast
    show ?thesis
    proof (cases "map_of h (PStr (str_lit ''roots''))")
      case None
      with True show ?thesis by (simp add: car_header_root_def py_len_def)
    next
      case (Some x)
      have in_h: "(PStr (str_lit ''roots''), x) \<in> set h"
        using Some by (rule map_of_SomeD)
      show ?thesis
      proof (cases x)
        case (PDict d)
        from keys have "\<forall>kv \<in> set h. str_keys (snd kv)" by simp
        with in_h have "str_keys (snd (PStr (str_lit ''roots''), x))" by blast
        with PDict have "str_keys (PDict d)" by simp
        then have "py_getitem0 (PDict d) = Inl KeyError" by (rule str_keyed_getitem0)
        with True Some PDict show ?thesis
          by (simp add: car_header_root_def py_len_def dict_item_def)
      qed (use True Some roots in
            \<open>auto simp: car_header_root_def py_len_def dict_item_def length_one_iff\<close>)
    qed
  qed
  then obtain e where e: "e = AssertionError HeaderVersion \<or> e = AssertionError HeaderRoots
      \<or> e = TypeError \<or> e = KeyError" and r: "car_header_root (PDict h) = Inl e"
    by blast
  have "parse_car s len = Inl e" for len
    using assms(1-3) r by (simp add: parse_car_def Let_def)
  with e r show ?thesis by blast
qed

lemma two_roots_header_is_rejected:
  "car_header_root (PDict [(PStr (str_lit ''roots''), PList [PInt 1, PInt 2]),
                           (PStr (str_lit ''version''), PInt 1)]) =
     Inl (AssertionError HeaderRoots)
   \<and> (\<forall>len. parse_car (BytesIO (two_roots_header @ good_block)) len =
          Inl (AssertionError HeaderRoots))"
proof -
  let ?s = "BytesIO (two_roots_header @ good_block)"
  let ?s1 = "\<lparr>unread = drop 1 two_roots_header @ good_block, offset = 1\<rparr>"
  let ?h = "[(PStr (str_lit ''roots''), PList [PInt 1, PInt 2]),
             (PStr (str_lit ''version''), PInt 1)]"
  let ?s2 = "\<lparr>unread = good_block, offset = 20\<rparr>"
  have h1: "parse_varint ?s = Inr (19, ?s1)"
    by (simp add: car_eval two_roots_header_def)
  have h2: "parse_dag_cbor_object ?s1 = Inr (PDict ?h, ?s2)"
    by (simp add: car_eval two_roots_header_def)
  have h3: "int (offset ?s2) - int (offset ?s1) = 19" by simp
  have h4: "\<not> ((dict_get ?h ''version'' = PInt 1 \<or> dict_get ?h ''version'' = PBool True
              \<or> dict_get ?h ''version'' = PFloat (Finite 1))
            \<and> (\<exists>x. map_of ?h (PStr (str_lit ''roots'')) = Some x
                   \<and> ((\<exists>v. x = PList [v]) \<or> (\<exists>c. x = PStr [c]) \<or> (\<exists>b. x = PBytes [b]))))"
    by (simp add: str_lit_def)
  have r: "car_header_root (PDict ?h) = Inl (AssertionError HeaderRoots)"
    by (simp add: car_header_root_def py_eq_int_def py_len_def dict_get_def str_lit_def)
  from header_checks_reject [OF h1 h2 h3 h4] r show ?thesis by auto
qed

subsection \<open>Blocks shorter than a CID layout\<close>

text \<open>
  C9 as stated fails in its last part: the block below declares length 0, its CID
  layout carries the digest of the empty payload, and the failure is the \<open>IndexError\<close>
  of decoding that empty payload, not a prefix, digest or framing assertion.
\<close>

theorem short_block_fails_in_decoder:
  "parse_varint \<lparr>unread = short_block, offset = 59\<rparr> =
     Inr (0, \<lparr>unread = drop 1 short_block, offset = 60\<rparr>)
   \<and> parse_car_block \<lparr>unread = short_block, offset = 59\<rparr> = Inl IndexError
   \<and> parse_car (BytesIO (example_header @ short_block)) 96 = Inl IndexError"
proof -
  have v: "parse_varint \<lparr>unread = short_block, offset = 59\<rparr> =
      Inr (0, \<lparr>unread = drop 1 short_block, offset = 60\<rparr>)"
    by (simp add: car_eval short_block_def empty_digest_def)
  have blk: "parse_car_block \<lparr>unread = short_block, offset = 59\<rparr> = Inl IndexError"
    using sha256_empty by (simp add: car_eval short_block_def empty_digest_def)
  then have "parse_car_blocks 96 \<lparr>unread = short_block, offset = 59\<rparr> [] = Inl IndexError"
    by (subst parse_car_blocks.simps) simp
  then have "parse_car (BytesIO (example_header @ short_block)) 96 = Inl IndexError"
    by (simp add: parse_car_example_header)
  with v blk show ?thesis by simp
qed

text \<open>
  C9, amended. For a block whose declared length is below 36 there is no length check:
  the parser reads the (up to) 36 bytes of the CID layout, then calls \<open>read\<close> with the
  negative count, which returns every byte that is left. Such a block is never
  accepted: it raises the prefix or the digest assertion, or the error of decoding
  the payload, or the trailing-bytes assertion, or else the framing assertion.
\<close>

theorem short_block_is_never_accepted:
  assumes "parse_varint t = Inr (block_len, t1)" and "block_len < 36"
  shows "stream_read 36 t1 =
           Inr (take 36 (unread t1),
                \<lparr>unread = drop 36 (unread t1),
                   offset = offset t1 + min 36 (length (unread t1))\<rparr>)
         \<and> stream_read (block_len - 36)
               \<lparr>unread = drop 36 (unread t1),
                  offset = offset t1 + min 36 (length (unread t1))\<rparr> =
             Inr (drop 36 (unread t1),
                  \<lparr>unread = [], offset = offset t1 + length (unread t1)\<rparr>)
         \<and> parse_car_block t =
             (if \<not> startswith (take 36 (unread t1)) [0x01, 0x71, 0x12, 0x20]
              then Inl (AssertionError BlockPrefix)
              else if \<not> endswith (take 36 (unread t1)) (sha256 (drop 36 (unread t1)))
              then Inl (AssertionError BlockDigest)
              else (case parse_dag_cbor_object (BytesIO (drop 36 (unread t1))) of
                      Inl e \<Rightarrow> Inl e
                    | Inr (block, rest) \<Rightarrow>
                        if unread rest \<noteq> [] then Inl (AssertionError BlockTrailing)
                        else Inl (AssertionError BlockFraming)))"
proof -
  define t2 where
    "t2 = \<lparr>unread = drop 36 (unread t1), offset = offset t1 + min 36 (length (unread t1))\<rparr>"
  define t3 where "t3 = \<lparr>unread = [] :: byte list, offset = offset t1 + length (unread t1)\<rparr>"
  have nonneg: "0 \<le> block_len"
    using assms(1) by (rule parse_varint_nonneg)
  have dm: "drop (min (length xs) 36) xs = drop 36 xs" for xs :: "byte list"
    by (cases "length xs \<le> 36") (simp_all add: min_def)
  have r1: "stream_read 36 t1 = Inr (take 36 (unread t1), t2)"
    by (simp add: t2_def stream_read_def read_bytes_def dm min.commute)
  have r2: "stream_read (block_len - 36) t2 = Inr (drop 36 (unread t1), t3)"
    using assms(2) nonneg by (simp add: stream_read_def read_bytes_def t2_def t3_def)
  have framing: "int (offset t3) - int (offset t1) \<noteq> block_len"
    if "parse_dag_cbor_object (BytesIO (drop 36 (unread t1))) = Inr (block, rest)"
    for block rest
  proof -
    have "length (unread rest) < length (unread (BytesIO (drop 36 (unread t1))))"
      using that by (rule parse_shorter(1))
    then have "36 < length (unread t1)" by (simp add: BytesIO_def)
    with assms(2) show ?thesis by (simp add: t3_def)
  qed
  have all_left: "fst (read_bytes (- 1) rest) = unread rest" for rest
    by (simp add: read_bytes_def Let_def)
  have body: "parse_car_block t =
      (if \<not> startswith (take 36 (unread t1)) [0x01, 0x71, 0x12, 0x20]
       then Inl (AssertionError BlockPrefix)
       else if \<not> endswith (take 36 (unread t1)) (sha256 (drop 36 (unread t1)))
       then Inl (AssertionError BlockDigest)
       else (case parse_dag_cbor_object (BytesIO (drop 36 (unread t1))) of
               Inl e \<Rightarrow> Inl e
             | Inr (block, rest) \<Rightarrow>
                 if unread rest \<noteq> [] then Inl (AssertionError BlockTrailing)
                 else if int (offset t3) - int (offset t1) \<noteq> block_len
                 then Inl (AssertionError BlockFraming)
                 else Inr ((cid_string (take 36 (unread t1)), block), t3)))"
    by (simp only: parse_car_block_def assms(1) r1 r2 Let_def sum.case prod.case all_left)
  have "parse_car_block t =
      (if \<not> startswith (take 36 (unread t1)) [0x01, 0x71, 0x12, 0x20]
       then Inl (AssertionError BlockPrefix)
       else if \<not> endswith (take 36 (unread t1)) (sha256 (drop 36 (unread t1)))
       then Inl (AssertionError BlockDigest)
       else (case parse_dag_cbor_object (BytesIO (drop 36 (unread t1))) of
               Inl e \<Rightarrow> Inl e
             | Inr (block, rest) \<Rightarrow>
                 if unread rest \<noteq> [] then Inl (AssertionError BlockTrailing)
                 else Inl (AssertionError BlockFraming)))"
  proof (cases "parse_dag_cbor_object (BytesIO (drop 36 (unread t1)))")
    case (Inl e)
    then show ?thesis by (simp only: body sum.case)
  next
    case (Inr r)
    obtain block rest where r: "r = (block, rest)" by (cases r)
    have "int (offset t3) - int (offset t1) \<noteq> block_len"
      using Inr r by (intro framing) simp
    then show ?thesis by (simp only: body Inr r sum.case prod.case not_False_eq_True if_True)
  qed
  with r1 r2 show ?thesis by (simp only: t2_def t3_def simp_thms)
qed

theorem short_block_is_never_accepted_witness:
  "parse_varint (BytesIO [0x05, 0x01, 0x71, 0x12, 0x20, 0xAA]) =
     Inr (5, \<lparr>unread = [0x01, 0x71, 0x12, 0x20, 0xAA], offset = 1\<rparr>)
   \<and> stream_read (5 - 36) \<lparr>unread = [], offset = 6\<rparr> = Inr ([], \<lparr>unread = [], offset = 6\<rparr>)
   \<and> parse_car_block (BytesIO [0x05, 0x01, 0x71, 0x12, 0x20, 0xAA]) =
       Inl (AssertionError BlockDigest)"
proof -
  let ?t = "BytesIO [0x05, 0x01, 0x71, 0x12, 0x20, 0xAA]"
  let ?t1 = "\<lparr>unread = [0x01, 0x71, 0x12, 0x20, 0xAA :: byte], offset = 1\<rparr>"
  have h1: "parse_varint ?t = Inr (5, ?t1)"
    by (simp add: car_eval)
  have h2: "(5 :: int) < 36" by simp
  have "stream_read (5 - 36) \<lparr>unread = [], offset = 6\<rparr> = Inr ([], \<lparr>unread = [], offset = 6\<rparr>)"
    by (simp add: stream_read_def read_bytes_def)
  moreover have "parse_car_block ?t = Inl (AssertionError BlockDigest)"
    using short_block_is_never_accepted [OF h1 h2]
    by (simp add: startswith_def endswith_def sha256_length)
  ultimately show ?thesis using h1 by blast
qed

section \<open>Truncated heads\<close>

text \<open>
  C3. The head decoder does not compare the number of bytes it got with the number it
  asked for. With additional info 25 and one byte left it returns the value of that
  one byte, and with additional info 27 and nothing left it returns 0; the byte-string
  path of the same module raises \<open>EOFError\<close> on a short read.
\<close>

theorem truncated_head_is_decoded:
  "parse_cbor_head (BytesIO [0x19, 0x01]) =
     Inr ((UNSIGNED_INT, PInt 1), \<lparr>unread = [], offset = 2\<rparr>)
   \<and> parse_dag_cbor_object (BytesIO [0x19, 0x01]) = Inr (PInt 1, \<lparr>unread = [], offset = 2\<rparr>)
   \<and> parse_dag_cbor_object (BytesIO [0x1B]) = Inr (PInt 0, \<lparr>unread = [], offset = 1\<rparr>)
   \<and> parse_dag_cbor_object (BytesIO [0x42, 0x01]) = Inl EOFError"
  by (simp add: decoder_eval)

section \<open>Properties of the tree enumerator\<close>





end
